theory Spec2Isabelle
  imports Main "HOL-Library.Word"
begin

unbundle bit_operations_syntax

section \<open>The allocator of mm-2.c as state-passing functions\<close>

text \<open>
  The target is LP64: \<open>size_t\<close> and pointers are 64-bit words, \<open>int\<close> is a 32-bit word.
  Memory is a store of \<open>size_t\<close> words indexed by byte address; every access of the
  program is a \<open>size_t\<close> or pointer access at an offset that is a multiple of 8 from the
  start of a mapped region. \<open>NULL\<close> is address 0.

  The page provider (memlib) is not part of the source file. Its page size is the
  parameter \<open>ps\<close> of the functions below, and the address its next \<open>mem_map\<close> call
  returns is the parameter \<open>base\<close>. The calls made to it are recorded in the state
  (\<open>mapped\<close>, \<open>unmapped\<close>, newest first), and so is every word stored through the
  \<open>PUT\<close> macro (\<open>puts\<close>, newest first).
\<close>

type_synonym addr = "64 word"
type_synonym size_t = "64 word"
type_synonym c_int = "32 word"

record heap =
  mem :: "addr \<Rightarrow> size_t"
  free_list :: addr
  mapped :: "(addr \<times> size_t) list"
  unmapped :: "(addr \<times> size_t) list"
  puts :: "(addr \<times> size_t) list"

subsection \<open>Macros\<close>

definition ALIGNMENT :: size_t where
  "ALIGNMENT = 16"

definition ALIGN :: "size_t \<Rightarrow> size_t" where
  "ALIGN sz = (sz + (ALIGNMENT - 1)) AND NOT (ALIGNMENT - 1)"

definition PAGE_ALIGN :: "size_t \<Rightarrow> size_t \<Rightarrow> size_t" where
  "PAGE_ALIGN ps sz = (sz + (ps - 1)) AND NOT (ps - 1)"

definition sizeof_block_header :: size_t where
  "sizeof_block_header = 8"

definition sizeof_block_footer :: size_t where
  "sizeof_block_footer = 8"

definition sizeof_list_node :: size_t where
  "sizeof_list_node = 16"

definition OVERHEAD :: size_t where
  "OVERHEAD = sizeof_block_header + sizeof_block_footer"

definition PAGE_OVERHEAD :: size_t where
  "PAGE_OVERHEAD = sizeof_block_header * 2 + sizeof_block_footer"

definition HDRP :: "addr \<Rightarrow> addr" where
  "HDRP bp = bp - sizeof_block_header"

definition HDRTOPAY :: "addr \<Rightarrow> addr" where
  "HDRTOPAY hdr = hdr + sizeof_block_header"

definition GET :: "heap \<Rightarrow> addr \<Rightarrow> size_t" where
  "GET s p = mem s p"

definition PUT :: "addr \<Rightarrow> size_t \<Rightarrow> heap \<Rightarrow> heap" where
  "PUT p val s = s\<lparr>mem := (mem s)(p := val), puts := (p, val) # puts s\<rparr>"

definition GET_ALLOC :: "heap \<Rightarrow> addr \<Rightarrow> size_t" where
  "GET_ALLOC s p = GET s p AND 1"

definition GET_SIZE :: "heap \<Rightarrow> addr \<Rightarrow> size_t" where
  "GET_SIZE s p = GET s p AND NOT 15"

definition PACK :: "size_t \<Rightarrow> size_t \<Rightarrow> size_t" where
  "PACK sz alloc = sz OR alloc"

definition FTRP :: "heap \<Rightarrow> addr \<Rightarrow> addr" where
  "FTRP s bp = bp + GET_SIZE s (HDRP bp) - OVERHEAD"

definition NEXT_BLKP :: "heap \<Rightarrow> addr \<Rightarrow> addr" where
  "NEXT_BLKP s bp = bp + GET_SIZE s (HDRP bp)"

definition PREV_BLKP :: "heap \<Rightarrow> addr \<Rightarrow> addr" where
  "PREV_BLKP s bp = bp - GET_SIZE s (bp - OVERHEAD)"

subsection \<open>The fields of \<open>list_node\<close>: \<open>prev\<close> at offset 0, \<open>next\<close> at offset 8\<close>

definition get_prev :: "heap \<Rightarrow> addr \<Rightarrow> addr" where
  "get_prev s p = mem s p"

definition get_next :: "heap \<Rightarrow> addr \<Rightarrow> addr" where
  "get_next s p = mem s (p + 8)"

definition set_prev :: "addr \<Rightarrow> addr \<Rightarrow> heap \<Rightarrow> heap" where
  "set_prev p v s = s\<lparr>mem := (mem s)(p := v)\<rparr>"

definition set_next :: "addr \<Rightarrow> addr \<Rightarrow> heap \<Rightarrow> heap" where
  "set_next p v s = s\<lparr>mem := (mem s)(p + 8 := v)\<rparr>"

subsection \<open>The page provider\<close>

definition mem_map :: "addr \<Rightarrow> size_t \<Rightarrow> heap \<Rightarrow> addr \<times> heap" where
  "mem_map base amt s = (base, s\<lparr>mapped := (base, amt) # mapped s\<rparr>)"

definition mem_unmap :: "addr \<Rightarrow> size_t \<Rightarrow> heap \<Rightarrow> heap" where
  "mem_unmap p amt s = s\<lparr>unmapped := (p, amt) # unmapped s\<rparr>"

subsection \<open>The explicit free list\<close>

definition addToFreeList :: "addr \<Rightarrow> heap \<Rightarrow> heap" where
  "addToFreeList ptr s =
     (let s1 = (if free_list s \<noteq> 0 then set_next (free_list s) ptr s else s);
          s2 = set_prev ptr (free_list s1) s1;
          s3 = set_next ptr 0 s2
      in s3\<lparr>free_list := ptr\<rparr>)"

definition removeFromFreeList :: "addr \<Rightarrow> heap \<Rightarrow> heap" where
  "removeFromFreeList ptr s =
     (let prevNode = get_prev s ptr;
          nextNode = get_next s ptr
      in if prevNode = 0 \<and> nextNode = 0 then s\<lparr>free_list := 0\<rparr>
         else if prevNode = 0 \<and> nextNode \<noteq> 0 then set_prev nextNode 0 s
         else if prevNode \<noteq> 0 \<and> nextNode = 0 then
           (set_next prevNode 0 s)\<lparr>free_list := prevNode\<rparr>
         else if prevNode \<noteq> 0 \<and> nextNode \<noteq> 0 then
           set_prev nextNode prevNode (set_next prevNode nextNode s)
         else s)"

subsection \<open>Marking a block allocated, with splitting\<close>

definition set_allocated :: "addr \<Rightarrow> size_t \<Rightarrow> heap \<Rightarrow> heap" where
  "set_allocated bp sz s =
     (let extra_size = GET_SIZE s (HDRP bp) - sz;
          s1 = removeFromFreeList bp s;
          s2 = PUT (HDRP bp) (PACK (GET_SIZE s1 (HDRP bp)) 1) s1;
          s3 = PUT (FTRP s2 bp) (PACK (GET_SIZE s2 (HDRP bp)) 1) s2
      in if extra_size > ALIGN (1 + OVERHEAD) then
           (let s4 = PUT (HDRP bp) (PACK sz 1) s3;
                s5 = PUT (FTRP s4 bp) (PACK sz 1) s4;
                s6 = addToFreeList (NEXT_BLKP s5 bp) s5;
                s7 = PUT (HDRP (NEXT_BLKP s6 bp)) (PACK extra_size 0) s6;
                s8 = PUT (FTRP s7 (NEXT_BLKP s7 bp)) (PACK extra_size 0) s7
            in s8)
         else s3)"

text \<open>\<open>int new_size = ALIGN(0 + OVERHEAD)\<close>: the \<open>size_t\<close> value is converted to \<open>int\<close>,
  and back to \<open>size_t\<close> (sign extension) at the call of \<open>set_allocated\<close>.\<close>

definition createProlog :: "addr \<Rightarrow> heap \<Rightarrow> addr \<times> heap" where
  "createProlog bp s =
     (let new_size = (ucast (ALIGN (0 + OVERHEAD)) :: c_int)
      in (bp, set_allocated bp (scast new_size) s))"

subsection \<open>Pages\<close>

definition mm_init :: "size_t \<Rightarrow> addr \<Rightarrow> heap \<Rightarrow> c_int \<times> heap" where
  "mm_init ps base s =
     (let init_size = PAGE_ALIGN ps (PAGE_OVERHEAD + 20000);
          (bp0, s1) = mem_map base init_size s;
          bp1 = HDRTOPAY bp0;
          bp = HDRTOPAY bp1;
          s2 = PUT (HDRP bp) (PACK (init_size - sizeof_block_footer) 0) s1;
          s3 = PUT (FTRP s2 bp) (PACK (init_size - sizeof_block_footer) 0) s2;
          s4 = PUT (HDRP (NEXT_BLKP s3 bp)) (PACK 0 1) s3;
          s5 = s4\<lparr>free_list := bp\<rparr>;
          s6 = set_prev (free_list s5) 0 s5;
          s7 = set_next (free_list s6) 0 s6;
          (_, s8) = createProlog bp s7
      in (0, s8))"

definition extend :: "size_t \<Rightarrow> addr \<Rightarrow> size_t \<Rightarrow> heap \<Rightarrow> addr \<times> heap" where
  "extend ps base sz s =
     (let chunk_size = PAGE_ALIGN ps (sz + PAGE_OVERHEAD + 80000);
          (bp0, s1) = mem_map base chunk_size s;
          bp1 = HDRTOPAY bp0;
          bp = HDRTOPAY bp1;
          s2 = PUT (HDRP bp) (PACK (chunk_size - sizeof_block_footer) 0) s1;
          s3 = PUT (FTRP s2 bp) (PACK (chunk_size - sizeof_block_footer) 0) s2;
          s4 = PUT (HDRP (NEXT_BLKP s3 bp)) (PACK 0 1) s3;
          s5 = addToFreeList bp s4;
          (bp2, s6) = createProlog bp s5;
          bp3 = NEXT_BLKP s6 bp2
      in (bp3, s6))"

subsection \<open>Allocation\<close>

text \<open>The search loop of \<open>mm_malloc\<close>. It follows \<open>prev\<close> links read from memory, so it
  need not terminate: \<open>None\<close> is the loop that runs forever, \<open>Some (Some b)\<close> the
  \<open>return\<close> from inside the loop body with block \<open>b\<close>, \<open>Some None\<close> the exit with
  \<open>searcher == NULL\<close>. The comparison is between a \<open>size_t\<close> and \<open>new_size\<close> converted
  to \<open>size_t\<close>, so it is unsigned.\<close>

partial_function (option) first_fit :: "heap \<Rightarrow> size_t \<Rightarrow> addr \<Rightarrow> addr option option" where
  "first_fit s new_size searcher =
     (if searcher \<noteq> 0 then
        (if GET_SIZE s (HDRP searcher) \<ge> new_size then Some (Some searcher)
         else first_fit s new_size (get_prev s searcher))
      else Some None)"

declare first_fit.simps [code]

text \<open>\<open>int new_size = ALIGN(size + OVERHEAD)\<close>: the sum wraps in \<open>size_t\<close>, the result is
  truncated to \<open>int\<close> and sign-extended wherever it is used as a \<open>size_t\<close>.\<close>

definition new_size_of :: "size_t \<Rightarrow> size_t" where
  "new_size_of sz =
     (let size1 = (if sizeof_list_node > sz then sizeof_list_node else sz);
          new_size = (ucast (ALIGN (size1 + OVERHEAD)) :: c_int)
      in scast new_size)"

definition mm_malloc :: "size_t \<Rightarrow> addr \<Rightarrow> size_t \<Rightarrow> heap \<Rightarrow> (addr \<times> heap) option" where
  "mm_malloc ps base sz s =
     (let new_size = new_size_of sz
      in case first_fit s new_size (free_list s) of
           None \<Rightarrow> None
         | Some (Some searcher) \<Rightarrow> Some (searcher, set_allocated searcher new_size s)
         | Some None \<Rightarrow>
             (let (bp, s1) = extend ps base new_size s
              in Some (bp, set_allocated bp new_size s1)))"

subsection \<open>Release\<close>

definition coalesce :: "addr \<Rightarrow> heap \<Rightarrow> addr \<times> heap" where
  "coalesce bp s =
     (let prev_alloc = GET_ALLOC s (HDRP (PREV_BLKP s bp));
          next_alloc = GET_ALLOC s (HDRP (NEXT_BLKP s bp));
          sz = GET_SIZE s (HDRP bp)
      in if prev_alloc \<noteq> 0 \<and> next_alloc \<noteq> 0 then (bp, addToFreeList bp s)
         else if prev_alloc \<noteq> 0 \<and> next_alloc = 0 then
           (let s1 = removeFromFreeList (NEXT_BLKP s bp) s;
                size1 = sz + GET_SIZE s1 (HDRP (NEXT_BLKP s1 bp));
                s2 = PUT (HDRP bp) (PACK size1 0) s1;
                s3 = PUT (FTRP s2 bp) (PACK size1 0) s2
            in (bp, addToFreeList bp s3))
         else if prev_alloc = 0 \<and> next_alloc \<noteq> 0 then
           (let size1 = sz + GET_SIZE s (HDRP (PREV_BLKP s bp));
                s1 = PUT (FTRP s bp) (PACK size1 0) s;
                s2 = PUT (HDRP (PREV_BLKP s1 bp)) (PACK size1 0) s1
            in (PREV_BLKP s2 bp, s2))
         else
           (let s1 = removeFromFreeList (NEXT_BLKP s bp) s;
                size1 = sz + (GET_SIZE s1 (HDRP (PREV_BLKP s1 bp))
                                + GET_SIZE s1 (HDRP (NEXT_BLKP s1 bp)));
                s2 = PUT (HDRP (PREV_BLKP s1 bp)) (PACK size1 0) s1;
                s3 = PUT (FTRP s2 (NEXT_BLKP s2 bp)) (PACK size1 0) s2
            in (PREV_BLKP s3 bp, s3)))"

definition mm_free :: "addr \<Rightarrow> heap \<Rightarrow> heap" where
  "mm_free ptr s =
     (let s1 = PUT (HDRP ptr) (PACK (GET_SIZE s (HDRP ptr)) 0) s;
          (ptr1, s2) = coalesce ptr s1
      in if GET_SIZE s2 (HDRP (NEXT_BLKP s2 ptr1)) = 0
            \<and> GET_SIZE s2 (HDRP (HDRP ptr1)) = ALIGN OVERHEAD then
           (let sizeToRelease = GET_SIZE s2 (HDRP ptr1) + PAGE_OVERHEAD + sizeof_block_header;
                s3 = removeFromFreeList ptr1 s2;
                ptr2 = HDRP (HDRP (HDRP (HDRP ptr1)))
            in mem_unmap ptr2 sizeToRelease s3)
         else s2)"

section \<open>Specification vocabulary\<close>

text \<open>The program before \<open>mm_init\<close>: the global \<open>free_list\<close> is \<open>NULL\<close>, nothing has been
  mapped or stored. Memory that was never written reads 0 here.\<close>

definition empty_heap :: heap where
  "empty_heap = \<lparr>mem = (\<lambda>_. 0), free_list = 0, mapped = [], unmapped = [], puts = []\<rparr>"

text \<open>\<open>fl_chain s p xs\<close>: following \<open>prev\<close> links from \<open>p\<close> visits exactly the nodes \<open>xs\<close>, in
  this order, and then reaches \<open>NULL\<close>. With \<open>p = free_list s\<close> this is the set of blocks
  reachable from the list pointer, newest first.\<close>

fun fl_chain :: "heap \<Rightarrow> addr \<Rightarrow> addr list \<Rightarrow> bool" where
  "fl_chain s p [] = (p = 0)"
| "fl_chain s p (x # xs) = (p = x \<and> x \<noteq> 0 \<and> fl_chain s (get_prev s x) xs)"

text \<open>Payload pointers and block sizes are multiples of 16.\<close>

definition aligned16 :: "addr \<Rightarrow> bool" where
  "aligned16 p = (p AND 15 = 0)"

text \<open>\<open>dll s nx p xs\<close>: the nodes \<open>xs\<close> form a doubly linked chain in memory. Starting at
  \<open>p\<close> and following \<open>prev\<close> visits \<open>xs\<close> and ends in \<open>NULL\<close>; the \<open>next\<close> field of each
  node points back to the node visited just before it, and that of the first node is
  \<open>nx\<close>.\<close>

fun dll :: "heap \<Rightarrow> addr \<Rightarrow> addr \<Rightarrow> addr list \<Rightarrow> bool" where
  "dll s nx p [] = (p = 0)"
| "dll s nx p (x # xs) = (p = x \<and> x \<noteq> 0 \<and> get_next s x = nx \<and> dll s x (get_prev s x) xs)"

text \<open>\<open>free_list_is s xs\<close>: the free list of state \<open>s\<close> has exactly the members \<open>xs\<close>,
  newest first: \<open>free_list\<close> points to the newest, whose \<open>next\<close> is \<open>NULL\<close>; the members
  are distinct and 16-byte aligned.\<close>

definition free_list_is :: "heap \<Rightarrow> addr list \<Rightarrow> bool" where
  "free_list_is s xs = (dll s 0 (free_list s) xs \<and> distinct xs \<and> list_all aligned16 xs)"

text \<open>\<open>clear_of bp sz x\<close>: the list node at \<open>x\<close> (the 16 bytes from \<open>x\<close>) lies outside the block
  with payload pointer \<open>bp\<close> and size \<open>sz\<close> (the \<open>sz\<close> bytes from its header at \<open>bp - 8\<close>).\<close>

definition clear_of :: "addr \<Rightarrow> size_t \<Rightarrow> addr \<Rightarrow> bool" where
  "clear_of bp sz x = (unat x + 24 \<le> unat bp \<or> unat bp + unat sz \<le> unat x + 8)"

text \<open>The boundary tags \<open>mm_free\<close> reads or writes for the block at \<open>p\<close>: header of the
  previous block, its footer, header and footer of the block, header and footer of the
  next block.\<close>

definition tags_of :: "heap \<Rightarrow> addr \<Rightarrow> addr list" where
  "tags_of s p = [HDRP (PREV_BLKP s p), p - OVERHEAD, HDRP p, FTRP s p,
                  HDRP (NEXT_BLKP s p), FTRP s (NEXT_BLKP s p)]"

text \<open>\<open>release_ok s xs p\<close>: what \<open>mm_free p\<close> may rely on in state \<open>s\<close>. The free list is
  \<open>xs\<close>; \<open>p\<close> is an aligned payload pointer that is not a member; its block has at
  least 32 bytes and equal header and footer words; the previous block has a non-zero
  size, the same in its header and footer, and does not start below address 0; the
  block and its successor do not wrap around the address space; a successor marked
  free is a member of the list and has at least 32 bytes; and no boundary tag of the
  three blocks is a field of a list node.\<close>

definition release_ok :: "heap \<Rightarrow> addr list \<Rightarrow> addr \<Rightarrow> bool" where
  "release_ok s xs p =
     (free_list_is s xs \<and> aligned16 p \<and> p \<noteq> 0 \<and> p \<notin> set xs
      \<and> 32 \<le> GET_SIZE s (HDRP p) \<and> GET s (FTRP s p) = GET s (HDRP p)
      \<and> GET_SIZE s (p - OVERHEAD) \<noteq> 0
      \<and> GET_SIZE s (HDRP (PREV_BLKP s p)) = GET_SIZE s (p - OVERHEAD)
      \<and> unat (GET_SIZE s (p - OVERHEAD)) \<le> unat p
      \<and> unat p + unat (GET_SIZE s (HDRP p)) + unat (GET_SIZE s (HDRP (NEXT_BLKP s p))) < 2 ^ 64
      \<and> (GET_ALLOC s (HDRP (NEXT_BLKP s p)) = 0 \<longrightarrow>
           NEXT_BLKP s p \<in> set xs \<and> 32 \<le> GET_SIZE s (HDRP (NEXT_BLKP s p)))
      \<and> (\<forall>x\<in>set xs. \<forall>a\<in>set (tags_of s p). a \<noteq> x \<and> a \<noteq> x + 8))"

text \<open>\<open>page_at s base chunk\<close>: the provider log of \<open>s\<close> holds the call \<open>mem_map(chunk)\<close> that
  returned \<open>base\<close>, and the page carries its two sentinels: the Prolog, a block of 16 bytes
  marked allocated, with its header at \<open>base + 8\<close> and its footer at \<open>base + 16\<close>, and the
  Terminator, a header \<open>(0, allocated)\<close> in the last word of the page, at
  \<open>base + chunk - 8\<close>.\<close>

definition page_at :: "heap \<Rightarrow> addr \<Rightarrow> size_t \<Rightarrow> bool" where
  "page_at s base chunk =
     ((base, chunk) \<in> set (mapped s)
      \<and> GET s (base + 8) = PACK 16 1 \<and> GET s (base + 16) = PACK 16 1
      \<and> GET s (base + chunk - 8) = PACK 0 1)"

text \<open>\<open>outside_page base chunk x\<close>: the list node at \<open>x\<close> (the 16 bytes from \<open>x\<close>) lies outside
  the \<open>chunk\<close> bytes from \<open>base\<close>.\<close>

definition outside_page :: "addr \<Rightarrow> size_t \<Rightarrow> addr \<Rightarrow> bool" where
  "outside_page base chunk x = (unat x + 16 \<le> unat base \<or> unat base + unat chunk \<le> unat x)"

subsection \<open>Concrete runs\<close>

text \<open>The states of three runs with page size 4096 and the first page mapped at 65536.
  Run one: \<open>init\<close>, \<open>a = allocate(100)\<close>, \<open>b = allocate(200)\<close>, \<open>release(a)\<close>.
  Run two: \<open>init\<close>, \<open>z = allocate(4294967296)\<close>, \<open>y = allocate(100)\<close>, \<open>release(z)\<close>.
  Run three: \<open>init\<close>, \<open>e = allocate(30000)\<close>, which does not fit the first page; the
  provider maps the second page at 131072.\<close>

definition heap_i :: heap where
  "heap_i = snd (mm_init 4096 65536 empty_heap)"

definition heap_a :: heap where
  "heap_a = snd (the (mm_malloc 4096 0 100 heap_i))"

definition heap_ab :: heap where
  "heap_ab = snd (the (mm_malloc 4096 0 200 heap_a))"

definition heap_b :: heap where
  "heap_b = mm_free 65568 heap_ab"

definition heap_z :: heap where
  "heap_z = snd (the (mm_malloc 4096 0 4294967296 heap_i))"

definition heap_zy :: heap where
  "heap_zy = snd (the (mm_malloc 4096 0 100 heap_z))"

definition heap_y :: heap where
  "heap_y = mm_free 65568 heap_zy"

definition heap_e :: heap where
  "heap_e = snd (the (mm_malloc 4096 131072 30000 heap_i))"

section \<open>Unfolding the program\<close>

lemmas macro_defs = ALIGNMENT_def ALIGN_def PAGE_ALIGN_def sizeof_block_header_def
  sizeof_block_footer_def sizeof_list_node_def OVERHEAD_def PAGE_OVERHEAD_def HDRP_def
  HDRTOPAY_def GET_def PUT_def GET_ALLOC_def GET_SIZE_def PACK_def FTRP_def NEXT_BLKP_def
  PREV_BLKP_def get_prev_def get_next_def set_prev_def set_next_def mem_map_def mem_unmap_def

lemmas op_defs = addToFreeList_def removeFromFreeList_def set_allocated_def createProlog_def
  mm_init_def extend_def new_size_of_def mm_malloc_def coalesce_def mm_free_def


lemmas run_defs = empty_heap_def heap_i_def heap_a_def heap_ab_def heap_b_def heap_z_def
  heap_zy_def heap_y_def

section \<open>Word arithmetic\<close>

lemma add_nonzero:
  assumes "unat (b::64 word) + n \<le> 2 ^ 64" and "b \<noteq> 0" and "unat k < n"
  shows "b + k \<noteq> 0"
proof
  assume z: "b + k = 0"
  have "unat b + unat k < 2 ^ 64" using assms by simp
  hence "unat (b + k) = unat b + unat k" using unat_add_lem[of b k] by simp
  with z have "unat b = 0" by simp
  with assms(2) show False by (simp add: unat_eq_zero)
qed


subsection \<open>Alignment\<close>


lemma fifteen: "(15 :: 64 word) = mask 4"
  by (simp add: mask_eq_exp_minus_1)

lemma and15_unat: "unat ((p::64 word) AND 15) = unat p mod 16"
  unfolding fifteen by (simp add: flip: take_bit_eq_mask) (simp add: unsigned_take_bit_eq take_bit_eq_mod unat_mod)

lemma aligned16_unat: "aligned16 p \<longleftrightarrow> unat p mod 16 = 0"
  unfolding aligned16_def using and15_unat[of p] by (metis unat_eq_zero unsigned_0)

lemma aligned16_bits: "aligned16 w \<Longrightarrow> n < 4 \<Longrightarrow> \<not> bit w n"
proof
  assume a: "aligned16 w" "n < 4" "bit w n"
  hence "bit (w AND mask 4) n" by (simp add: bit_simps)
  with a(1) show False by (simp add: aligned16_def fifteen)
qed

lemma aligned16_and_not15: "aligned16 w \<Longrightarrow> w AND NOT 15 = w"
  unfolding fifteen 
  by (rule bit_word_eqI) (auto simp: bit_simps dest: aligned16_bits)

lemma aligned16_or1: "aligned16 w \<Longrightarrow> (w OR 1) AND NOT 15 = w"
  unfolding fifteen 
  by (rule bit_word_eqI) (auto simp: bit_simps dest: aligned16_bits)

lemma aligned16_and1: 
  assumes "aligned16 w" shows "w AND 1 = 0"
proof -
  have "\<not> bit w 0" using aligned16_bits[OF assms, of 0] by simp
  thus ?thesis by (simp add: and_one_eq bit_0 mod_2_eq_odd)
qed

lemma or1_and1: "((w::64 word) OR 1) AND 1 = 1"
  by (rule bit_word_eqI) (auto simp: bit_simps)

lemma and_not15_aligned: "aligned16 (w AND NOT 15)"
  by (simp add: aligned16_def and.assoc)





lemma aligned16_dvd: "aligned16 p \<longleftrightarrow> 16 dvd p"
  unfolding aligned16_def fifteen by (simp flip: take_bit_eq_mask add: take_bit_eq_0_iff)

lemma aligned16_add: "aligned16 x \<Longrightarrow> aligned16 y \<Longrightarrow> aligned16 (x + y)"
  by (simp add: aligned16_dvd)

lemma aligned16_diff: "aligned16 x \<Longrightarrow> aligned16 y \<Longrightarrow> aligned16 (x - y)"
  by (simp add: aligned16_dvd)

lemma aligned16_numeral [simp]: "aligned16 16" "aligned16 32" "aligned16 0"
  by (simp_all add: aligned16_def)

lemma al_plus8: 
  assumes "aligned16 x" "aligned16 y" shows "x + 8 \<noteq> y"
proof
  assume e: "x + 8 = y"
  have "unat (x + 8) mod 16 = (unat x + 8) mod 16" by (simp add: unat_word_ariths mod_mod_cancel)
  also have "\<dots> = 8" using assms(1) unfolding aligned16_unat by presburger
  finally show False using assms(2) e by (simp add: aligned16_unat)
qed

section \<open>The free list as a doubly linked chain\<close>


lemma dll_frame:
  assumes "\<And>x. x \<in> set xs \<Longrightarrow> mem s' x = mem s x \<and> mem s' (x + 8) = mem s (x + 8)"
  shows "dll s' nx p xs = dll s nx p xs"
  using assms
proof (induction xs arbitrary: nx p)
  case Nil
  show ?case by simp
next
  case (Cons x xs)
  have "mem s' x = mem s x" "mem s' (x + 8) = mem s (x + 8)" using Cons.prems[of x] by simp_all
  moreover have "dll s' x (mem s x) xs = dll s x (mem s x) xs"
    by (rule Cons.IH) (simp add: Cons.prems)
  ultimately show ?case by (simp add: get_prev_def get_next_def)
qed

lemma dll_fl_chain: "dll s nx p xs \<Longrightarrow> fl_chain s p xs"
  by (induction xs arbitrary: nx p) auto

lemma dll_nonzero: "dll s nx p xs \<Longrightarrow> 0 \<notin> set xs"
  by (induction xs arbitrary: nx p) auto

lemma eight_neq: "(x::64 word) + 8 \<noteq> x"
  by simp

lemma addToFreeList_alt:
  "addToFreeList b s = s\<lparr>mem := ((if free_list s \<noteq> 0 then (mem s)(free_list s + 8 := b) else mem s)
        (b := free_list s))(b + 8 := 0), free_list := b\<rparr>"
  by (simp add: addToFreeList_def set_next_def set_prev_def Let_def)

lemma removeFromFreeList_alt:
  "removeFromFreeList b s =
     s\<lparr>mem := (let m1 = (if get_prev s b \<noteq> 0 then (mem s)(get_prev s b + 8 := get_next s b) else mem s)
               in if get_next s b \<noteq> 0 then m1(get_next s b := get_prev s b) else m1),
       free_list := (if get_next s b = 0 then get_prev s b else free_list s)\<rparr>"
  by (simp add: removeFromFreeList_def set_next_def set_prev_def Let_def)

lemma free_list_is_add:
  assumes F: "free_list_is s xs" and nb: "b \<notin> set xs" and b0: "b \<noteq> 0" and ab: "aligned16 b"
  shows "free_list_is (addToFreeList b s) (b # xs)"
proof -
  let ?s = "addToFreeList b s"
  let ?t = "free_list s"
  from F have d: "dll s 0 ?t xs" and dist: "distinct xs" and al: "list_all aligned16 xs"
    by (simp_all add: free_list_is_def)
  have al': "\<And>x. x \<in> set xs \<Longrightarrow> aligned16 x" using al by (simp add: list_all_iff)
  have nb8: "b + 8 \<noteq> b" by simp
  have "dll ?s b ?t xs"
  proof (cases xs)
    case Nil
    with d show ?thesis by simp
  next
    case (Cons t ys)
    with d have t: "?t = t" "t \<noteq> 0" "get_next s t = 0" and dy: "dll s t (get_prev s t) ys" by simp_all
    have at: "aligned16 t" using al' Cons by simp
    have tb: "t \<noteq> b" using nb Cons by auto
    have ne: "t + 8 \<noteq> b" "b + 8 \<noteq> t" using al_plus8 at ab by auto
    have m: "mem ?s = (mem s)(t + 8 := b, b := t, b + 8 := 0)"
      using t by (simp add: addToFreeList_alt)
    have 1: "get_next ?s t = b" using ne tb by (simp add: m get_next_def)
    have 2: "get_prev ?s t = get_prev s t" using ne tb by (simp add: m get_prev_def)
    have 3: "dll ?s t (get_prev s t) ys = dll s t (get_prev s t) ys"
    proof (rule dll_frame)
      fix y assume y: "y \<in> set ys"
      hence ay: "aligned16 y" using al' Cons by simp
      have "y \<noteq> t" using dist Cons y by auto
      moreover have "y \<noteq> b" using nb Cons y by auto
      moreover have "t + 8 \<noteq> y" "b + 8 \<noteq> y" "y + 8 \<noteq> b" using al_plus8 ay at ab by auto
      ultimately show "mem ?s y = mem s y \<and> mem ?s (y + 8) = mem s (y + 8)"
        by (auto simp add: m)
    qed
    show ?thesis using t 1 2 3 dy Cons by simp
  qed
  moreover have "get_next ?s b = 0" by (simp add: addToFreeList_alt get_next_def)
  moreover have "get_prev ?s b = ?t" by (simp add: addToFreeList_alt get_prev_def)
  moreover have "free_list ?s = b" by (simp add: addToFreeList_alt)
  ultimately show ?thesis using b0 nb dist al ab by (simp add: free_list_is_def)
qed





lemma dll_mid:
  "dll s nx0 p (ys @ b # zs) \<Longrightarrow>
     get_next s b = (if ys = [] then nx0 else last ys) \<and>
     get_prev s b = (if zs = [] then 0 else hd zs)"
proof (induction ys arbitrary: nx0 p)
  case Nil
  then show ?case by (cases zs) auto
next
  case (Cons y ys)
  then show ?case by (cases ys) auto
qed

lemma dll_remove_aux:
  assumes "dll s nx0 p (ys @ b # zs)" and "distinct (ys @ b # zs)"
    and "\<And>x. x \<in> set (ys @ b # zs) \<Longrightarrow> aligned16 x"
    and "nx0 = 0 \<or> (aligned16 nx0 \<and> nx0 \<notin> set (ys @ b # zs))"
  shows "dll (removeFromFreeList b s) nx0 (if ys = [] then get_prev s b else p) (ys @ zs)"
  using assms
proof (induction ys arbitrary: nx0 p)
  case Nil
  let ?s = "removeFromFreeList b s"
  from Nil.prems(1) have nx: "get_next s b = nx0" and dz: "dll s b (get_prev s b) zs" and b0: "b \<noteq> 0"
    by simp_all
  show ?case
  proof (cases zs)
    case Nil
    with dz show ?thesis by simp
  next
    case (Cons z zs')
    with dz have pv: "get_prev s b = z" and z0: "z \<noteq> 0" and dz': "dll s z (get_prev s z) zs'"
      by simp_all
    have az: "aligned16 z" using Nil.prems(3) Cons by simp
    have z8: "z + 8 \<noteq> 0" using al_plus8[OF az, of 0] by simp
    have zn: "z \<noteq> nx0" "z + 8 \<noteq> nx0"
      using Nil.prems(4) Cons z0 z8 al_plus8[OF az, of nx0] by auto
    have m: "mem ?s = (if nx0 \<noteq> 0 then (mem s)(z + 8 := nx0, nx0 := z) else (mem s)(z + 8 := nx0))"
      using pv nx z0 by (simp add: removeFromFreeList_alt)
    have 1: "get_next ?s z = nx0" using zn by (simp add: m get_next_def)
    have 2: "get_prev ?s z = get_prev s z" using zn by (simp add: m get_prev_def)
    have 3: "dll ?s z (get_prev s z) zs' = dll s z (get_prev s z) zs'"
    proof (rule dll_frame)
      fix y assume y: "y \<in> set zs'"
      hence ay: "aligned16 y" using Nil.prems(3) Cons by simp
      have "y \<noteq> z" using Nil.prems(2) Cons y by auto
      moreover have "y \<noteq> nx0 \<or> nx0 = 0" using Nil.prems(4) Cons y by auto
      moreover have "z + 8 \<noteq> y" using al_plus8 ay az by auto
      moreover have "y + 8 \<noteq> nx0 \<or> nx0 = 0" using Nil.prems(4) al_plus8[OF ay] by auto
      ultimately show "mem ?s y = mem s y \<and> mem ?s (y + 8) = mem s (y + 8)"
        by (auto simp add: m)
    qed
    show ?thesis using pv z0 1 2 3 dz' Cons by simp
  qed
next
  case (Cons y ys)
  let ?s = "removeFromFreeList b s"
  let ?pv = "get_prev s b" and ?nx = "get_next s b"
  from Cons.prems(1) have y0: "y \<noteq> 0" and py: "p = y" and ny: "get_next s y = nx0"
    and dy: "dll s y (get_prev s y) (ys @ b # zs)" by simp_all
  have al: "\<And>x. x \<in> set (ys @ b # zs) \<Longrightarrow> aligned16 x" using Cons.prems(3) by simp
  have ay: "aligned16 y" using Cons.prems(3) by simp
  have ynot: "y \<notin> set (ys @ b # zs)" using Cons.prems(2) by simp
  have IH: "dll ?s y (if ys = [] then ?pv else get_prev s y) (ys @ zs)"
    by (rule Cons.IH[OF dy]) (use Cons.prems(2) al ay ynot in auto)
  from dll_mid[OF dy] have mid: "?nx = (if ys = [] then y else last ys)"
     "?pv = (if zs = [] then 0 else hd zs)" by simp_all
  have nxs: "?nx \<in> set (y # ys)" using mid(1) by auto
  have nx0': "?nx \<noteq> 0" using nxs dll_nonzero[OF Cons.prems(1)] by auto
  have anx: "aligned16 ?nx" using nxs Cons.prems(3) by auto
  have pvs: "?pv = 0 \<or> ?pv \<in> set zs" using mid(2) by (cases zs) auto
  have apv: "?pv \<noteq> 0 \<Longrightarrow> aligned16 ?pv" using pvs Cons.prems(3) by auto
  have ypv: "?pv \<noteq> 0 \<Longrightarrow> ?pv \<noteq> y" using pvs Cons.prems(2) by auto
  have m: "mem ?s = (if ?pv \<noteq> 0 then (mem s)(?pv + 8 := ?nx, ?nx := ?pv) else (mem s)(?nx := ?pv))"
    using nx0' by (simp add: removeFromFreeList_alt Let_def)
  have 1: "get_next ?s y = nx0"
  proof -
    have "y + 8 \<noteq> ?nx" using al_plus8[OF ay anx] .
    moreover have "?pv \<noteq> 0 \<Longrightarrow> y + 8 \<noteq> ?pv + 8" using ypv by simp
    ultimately show ?thesis using ny by (auto simp add: m get_next_def)
  qed
  have 2: "get_prev ?s y = (if ys = [] then ?pv else get_prev s y)"
  proof (cases "ys = []")
    case True
    hence "?nx = y" using mid(1) by simp
    thus ?thesis using True by (simp add: m get_prev_def)
  next
    case False
    hence "?nx = last ys" using mid(1) by simp
    hence "?nx \<in> set ys" using False by simp
    hence "?nx \<noteq> y" using Cons.prems(2) by auto
    moreover have "?pv \<noteq> 0 \<Longrightarrow> ?pv + 8 \<noteq> y" using al_plus8[OF _ ay] apv by auto
    ultimately show ?thesis using False by (auto simp add: m get_prev_def)
  qed
  show ?case using y0 py 1 2 IH by simp
qed

lemma free_list_is_remove:
  assumes F: "free_list_is s xs" and mem: "b \<in> set xs"
  shows "free_list_is (removeFromFreeList b s) (remove1 b xs)"
proof -
  from F have d: "dll s 0 (free_list s) xs" and dist: "distinct xs" and al: "list_all aligned16 xs"
    by (simp_all add: free_list_is_def)
  from mem obtain ys zs where xs: "xs = ys @ b # zs" by (auto simp: in_set_conv_decomp)
  have r: "remove1 b xs = ys @ zs" using dist xs by (simp add: remove1_append)
  have al': "\<And>x. x \<in> set (ys @ b # zs) \<Longrightarrow> aligned16 x"
    using al xs by (auto simp add: list_all_iff)
  have "dll (removeFromFreeList b s) 0 (if ys = [] then get_prev s b else free_list s) (ys @ zs)"
    by (rule dll_remove_aux) (use d dist al' xs in auto)
  moreover have "get_next s b = 0 \<longleftrightarrow> ys = []"
  proof -
    from dll_mid[of s 0 "free_list s" ys b zs] d xs
    have "get_next s b = (if ys = [] then 0 else last ys)" by simp
    moreover have "ys \<noteq> [] \<Longrightarrow> last ys \<noteq> 0" using dll_nonzero[OF d] xs
      by (metis Un_iff last_in_set set_append)
    ultimately show ?thesis by auto
  qed
  hence "free_list (removeFromFreeList b s) = (if ys = [] then get_prev s b else free_list s)"
    by (simp add: removeFromFreeList_alt)
  ultimately show ?thesis using dist al xs r by (auto simp add: free_list_is_def)
qed

section \<open>The search loop and the provider log\<close>



lemma first_fit_chain:
  "fl_chain s p xs \<Longrightarrow> first_fit s n p = Some (find (\<lambda>b. n \<le> GET_SIZE s (HDRP b)) xs)"
proof (induction xs arbitrary: p)
  case Nil
  then show ?case by (subst first_fit.simps) simp
next
  case (Cons x xs)
  then show ?case by (subst first_fit.simps) simp
qed

lemma mapped_PUT [simp]: "mapped (PUT a v s) = mapped s"
  by (simp add: PUT_def)
lemma mapped_addToFreeList [simp]: "mapped (addToFreeList b s) = mapped s"
  by (simp add: addToFreeList_alt)
lemma mapped_removeFromFreeList [simp]: "mapped (removeFromFreeList b s) = mapped s"
  by (simp add: removeFromFreeList_alt)
lemma mapped_set_allocated [simp]: "mapped (set_allocated b n s) = mapped s"
  by (simp add: set_allocated_def Let_def)
lemma mapped_extend: "mapped (snd (extend ps base n s)) = (base, PAGE_ALIGN ps (n + PAGE_OVERHEAD + 80000)) # mapped s"
  by (simp add: extend_def createProlog_def mem_map_def Let_def)

lemma unmapped_PUT [simp]: "unmapped (PUT a v s) = unmapped s"
  by (simp add: PUT_def)
lemma unmapped_addToFreeList [simp]: "unmapped (addToFreeList b s) = unmapped s"
  by (simp add: addToFreeList_alt)
lemma unmapped_removeFromFreeList [simp]: "unmapped (removeFromFreeList b s) = unmapped s"
  by (simp add: removeFromFreeList_alt)
lemma unmapped_coalesce [simp]: "unmapped (snd (coalesce p s)) = unmapped s"
  by (simp add: coalesce_def Let_def)
lemma mapped_coalesce [simp]: "mapped (snd (coalesce p s)) = mapped s"
  by (simp add: coalesce_def Let_def)

section \<open>The reuse scenario\<close>

text \<open>
  Claim C9. For the call sequence \<open>init(); a = allocate(100); b = allocate(200); release(a);
  c = allocate(50)\<close> the pointer \<open>c\<close> equals \<open>a\<close>. Here the page size is 4096, the first
  page is mapped at any non-null address \<open>base\<close> whose 20480 bytes do not wrap around the
  address space, and the memory content before \<open>init\<close> is arbitrary. None of the three
  allocations needs a new page (\<open>pa\<close>, \<open>pb\<close>, \<open>pc\<close> are what the provider would have
  returned); every call returns, and \<open>a\<close> is the first payload of the page.
\<close>

theorem scenario_reuse:
  assumes "base \<noteq> 0" and "unat base + 20480 \<le> 2 ^ 64"
  shows "(case mm_malloc 4096 pa 100 (snd (mm_init 4096 base s)) of
            None \<Rightarrow> False
          | Some (a, s1) \<Rightarrow>
             (case mm_malloc 4096 pb 200 s1 of
                None \<Rightarrow> False
              | Some (b, s2) \<Rightarrow>
                 (case mm_malloc 4096 pc 50 (mm_free a s2) of
                    None \<Rightarrow> False
                  | Some (c, s4) \<Rightarrow> c = a \<and> a = base + 32 \<and> b = base + 160)))"
proof -
  have "base + 32 \<noteq> 0" "base + 160 \<noteq> 0" "base + 384 \<noteq> 0"
    by (rule add_nonzero[OF assms(2) assms(1)]; simp)+
  hence nzs: "32 + base \<noteq> 0" "160 + base \<noteq> 0" "384 + base \<noteq> 0"
    by (simp_all add: add.commute)
  show ?thesis using nzs
    by (simp add: macro_defs op_defs Let_def first_fit.simps
          cong: let_weak_cong prod.case_cong_weak option.case_cong_weak)
qed

theorem scenario_reuse_witness:
  "(65536 :: addr) \<noteq> 0 \<and> unat (65536 :: addr) + 20480 \<le> 2 ^ 64 \<and>
   (case mm_malloc 4096 0 100 (snd (mm_init 4096 65536 empty_heap)) of
      None \<Rightarrow> False
    | Some (a, s1) \<Rightarrow>
       (case mm_malloc 4096 0 200 s1 of
          None \<Rightarrow> False
        | Some (b, s2) \<Rightarrow>
           (case mm_malloc 4096 0 50 (mm_free a s2) of
              None \<Rightarrow> False
            | Some (c, s4) \<Rightarrow> c = a \<and> a = 65536 + 32 \<and> b = 65536 + 160)))"
  using scenario_reuse[where base = 65536 and s = empty_heap and pa = 0 and pb = 0 and pc = 0]
  by simp


section \<open>Requests that overflow the size computation\<close>

text \<open>
  Claim C1. For every requested size \<open>n\<close>, \<open>allocate(n)\<close> returns a 16-byte aligned pointer
  to a payload of at least \<open>n\<close> usable bytes. The code does not meet this for large \<open>n\<close>:
  \<open>mm_malloc\<close> keeps the total block size in an \<open>int\<close>. After \<open>init\<close>, the request for
  \<open>4294967296\<close> bytes computes the block size 16, takes the first free block without
  asking the provider for memory, and returns a block marked \<open>(16, allocated)\<close>: its footer
  lies at the returned pointer and the next block's header 8 bytes later, so no byte
  is usable.
\<close>

theorem malloc_4GiB_returns_empty_block:
  "new_size_of 4294967296 = 16
   \<and> mm_malloc 4096 0 4294967296 heap_i = Some (65568, heap_z)
   \<and> GET heap_z (HDRP 65568) = PACK 16 1
   \<and> FTRP heap_z 65568 = 65568
   \<and> HDRP (NEXT_BLKP heap_z 65568) = 65568 + 8
   \<and> GET_SIZE heap_z (HDRP 65568) - OVERHEAD = 0
   \<and> mapped heap_z = mapped heap_i"
  by (simp add: run_defs macro_defs op_defs Let_def first_fit.simps
        cong: let_weak_cong prod.case_cong_weak option.case_cong_weak)

text \<open>
  Claim C2. At every quiescent point a block is reachable from the free list if and
  only if its boundary tag marks it free. The code breaks this after the truncated
  allocation of claim C1: with \<open>z = allocate(4294967296)\<close> at 65568 and \<open>y = allocate(100)\<close>
  at 65584, \<open>release(z)\<close> writes the list node of \<open>z\<close> over the header of \<open>y\<close>. Afterwards
  the free list holds the single block 65712, while the headers of \<open>z\<close> and of the live
  block \<open>y\<close> both carry the flag 0.
\<close>

theorem truncated_block_breaks_list_membership:
  "mm_malloc 4096 0 4294967296 heap_i = Some (65568, heap_z)
   \<and> mm_malloc 4096 0 100 heap_z = Some (65584, heap_zy)
   \<and> GET_ALLOC heap_zy (HDRP 65584) = 1
   \<and> fl_chain heap_y (free_list heap_y) [65712]
   \<and> GET_ALLOC heap_y (HDRP 65568) = 0
   \<and> GET_ALLOC heap_y (HDRP 65584) = 0"
  by (simp add: run_defs macro_defs op_defs Let_def first_fit.simps
        cong: let_weak_cong prod.case_cong_weak option.case_cong_weak)

text \<open>
  Claim C3. At every quiescent point no two adjacent blocks are both free, because
  release coalesces eagerly. In the run of claim C2 the blocks \<open>z\<close> and \<open>y\<close> are adjacent,
  and after \<open>release(z)\<close> both headers are marked free: \<open>z\<close> as \<open>(16, free)\<close> and the live
  block \<open>y\<close> as \<open>(0, free)\<close>. The zero size is then taken for a Terminator, and the page is
  handed back to the provider with size 48 although 20480 bytes were mapped.
\<close>

theorem truncated_block_leaves_adjacent_free_tags:
  "NEXT_BLKP heap_zy 65568 = 65584
   \<and> GET heap_zy (HDRP 65584) = PACK 128 1
   \<and> NEXT_BLKP heap_y 65568 = 65584
   \<and> GET heap_y (HDRP 65568) = PACK 16 0
   \<and> GET heap_y (HDRP 65584) = PACK 0 0
   \<and> mapped heap_y = [(65536, 20480)]
   \<and> unmapped heap_y = [(65536, 48)]"
  by (simp add: run_defs macro_defs op_defs Let_def first_fit.simps
        cong: let_weak_cong prod.case_cong_weak option.case_cong_weak)

section \<open>Stored size words\<close>

text \<open>
  Claim C8. Every size word stored in a header or footer has its low four bits zero
  apart from the allocation flag in bit 0, in particular the words written for the
  initial large free block of a page. The code stores \<open>init_size - sizeof(block_footer)\<close>
  for that block, which is 8 modulo 16: the first two words \<open>mm_init\<close> stores are 20472,
  with bit 3 set. (\<open>createProlog\<close> overwrites both before \<open>mm_init\<close> returns.)
\<close>

theorem mm_init_stores_unaligned_size:
  "PACK (PAGE_ALIGN 4096 (PAGE_OVERHEAD + 20000) - sizeof_block_footer) 0 = 20472
   \<and> rev (puts heap_i) ! 0 = (65544, 20472)
   \<and> rev (puts heap_i) ! 1 = (86000, 20472)
   \<and> (20472 :: size_t) AND 15 = 8"
  by (simp add: run_defs macro_defs op_defs Let_def
        cong: let_weak_cong prod.case_cong_weak option.case_cong_weak)

section \<open>The states of the concrete runs\<close>

lemma heap_i_obs:
  "mem heap_i = (\<lambda>_. 0)(86008 := 1, 65544 := 17, 65552 := 17, 65568 := 0, 65576 := 0,
      65560 := 20448, 86000 := 20448)"
  "free_list heap_i = 65568" "mapped heap_i = [(65536, 20480)]" "unmapped heap_i = []"
  by (simp_all add: run_defs macro_defs op_defs Let_def
        cong: let_weak_cong prod.case_cong_weak option.case_cong_weak)

lemma heap_a_run: "mm_malloc 4096 0 100 heap_i = Some (65568, heap_a)"
  by (simp add: heap_a_def heap_i_obs macro_defs op_defs Let_def first_fit.simps
        cong: let_weak_cong prod.case_cong_weak option.case_cong_weak)

lemma heap_a_obs:
  "mem heap_a = (\<lambda>_. 0)(86008 := 1, 65544 := 17, 65552 := 17, 65568 := 0, 65576 := 0,
      65560 := 129, 65680 := 129, 65696 := 0, 65704 := 0, 65688 := 20320, 86000 := 20320)"
  "free_list heap_a = 65696" "mapped heap_a = [(65536, 20480)]" "unmapped heap_a = []"
  by (simp_all add: heap_a_def heap_i_obs macro_defs op_defs Let_def first_fit.simps
        cong: let_weak_cong prod.case_cong_weak option.case_cong_weak)

lemma heap_ab_run: "mm_malloc 4096 0 200 heap_a = Some (65696, heap_ab)"
  by (simp add: heap_ab_def heap_a_obs macro_defs op_defs Let_def first_fit.simps
        cong: let_weak_cong prod.case_cong_weak option.case_cong_weak)

lemma heap_ab_obs:
  "mem heap_ab = (\<lambda>_. 0)(86008 := 1, 65544 := 17, 65552 := 17, 65568 := 0, 65576 := 0,
      65560 := 129, 65680 := 129, 65696 := 0, 65704 := 0, 65688 := 225, 65904 := 225,
      65920 := 0, 65928 := 0, 65912 := 20096, 86000 := 20096)"
  "free_list heap_ab = 65920" "mapped heap_ab = [(65536, 20480)]" "unmapped heap_ab = []"
  by (simp_all add: heap_ab_def heap_a_obs macro_defs op_defs Let_def first_fit.simps
        cong: let_weak_cong prod.case_cong_weak option.case_cong_weak)

lemma heap_b_obs:
  "mem heap_b = (\<lambda>_. 0)(86008 := 1, 65544 := 17, 65552 := 17, 65680 := 129, 65696 := 0,
      65704 := 0, 65688 := 225, 65904 := 225, 65920 := 0, 65912 := 20096, 86000 := 20096,
      65560 := 128, 65928 := 65568, 65568 := 65920, 65576 := 0)"
  "free_list heap_b = 65568" "mapped heap_b = [(65536, 20480)]" "unmapped heap_b = []"
  by (simp_all add: heap_b_def heap_ab_obs macro_defs op_defs Let_def
        cong: let_weak_cong prod.case_cong_weak option.case_cong_weak)

lemma heap_b_list: "free_list_is heap_b [65568, 65920]"
  by (simp add: free_list_is_def heap_b_obs get_prev_def get_next_def aligned16_def)

lemma heap_b_chain: "fl_chain heap_b (free_list heap_b) [65568, 65920]"
  by (rule dll_fl_chain) (use heap_b_list in \<open>simp add: free_list_is_def\<close>)

section \<open>First fit\<close>

text \<open>
  Claim C5. \<open>mm_malloc\<close> searches the free list first-fit from the list pointer along
  the \<open>prev\<close> links, that is from the newest member to the oldest, and takes the first
  block whose size is at least the computed total block size; only when no member fits
  does it ask the provider for a new page. With \<open>xs\<close> the members in the order the
  \<open>prev\<close> links visit them: the loop returns, the block committed is the first fitting
  element of \<open>xs\<close>, and then the provider log is unchanged; without a fitting element
  the result is the block of a newly mapped page, the one new entry of the log.
  (\<open>free_list_is_add\<close> shows that \<open>addToFreeList\<close> puts a block in front of this order.)
\<close>

theorem mm_malloc_first_fit:
  assumes "fl_chain s (free_list s) xs"
  shows "(case find (\<lambda>b. new_size_of n \<le> GET_SIZE s (HDRP b)) xs of
            Some b \<Rightarrow> mm_malloc ps base n s = Some (b, set_allocated b (new_size_of n) s)
                      \<and> mapped (set_allocated b (new_size_of n) s) = mapped s
          | None \<Rightarrow> (let (bp, s1) = extend ps base (new_size_of n) s;
                         s2 = set_allocated bp (new_size_of n) s1
                     in mm_malloc ps base n s = Some (bp, s2)
                        \<and> mapped s2 = (base, PAGE_ALIGN ps (new_size_of n + PAGE_OVERHEAD + 80000)) # mapped s))"
  using first_fit_chain[OF assms, of "new_size_of n"] mapped_extend[of ps base "new_size_of n" s]
  by (auto simp add: mm_malloc_def Let_def split: option.splits prod.splits)

theorem mm_malloc_first_fit_witness:
  "fl_chain heap_b (free_list heap_b) [65568, 65920]
   \<and> find (\<lambda>b. new_size_of 50 \<le> GET_SIZE heap_b (HDRP b)) [65568, 65920] = Some 65568
   \<and> mm_malloc 4096 0 50 heap_b = Some (65568, set_allocated 65568 (new_size_of 50) heap_b)
   \<and> mapped (set_allocated 65568 (new_size_of 50) heap_b) = mapped heap_b"
proof -
  have f: "find (\<lambda>b. new_size_of 50 \<le> GET_SIZE heap_b (HDRP b)) [65568, 65920] = Some 65568"
    by (simp add: new_size_of_def macro_defs heap_b_obs)
  show ?thesis
    using mm_malloc_first_fit[OF heap_b_chain, where n = 50 and ps = 4096 and base = 0] heap_b_chain f
    by simp
qed

section \<open>Insertion followed by removal\<close>

text \<open>
  Claim C10. For a free list with members \<open>xs\<close> and an aligned block \<open>b\<close> that is not a
  member, \<open>removeFromFreeList b\<close> right after \<open>addToFreeList b\<close> restores the list: the
  list pointer, the members and their order, and the \<open>prev\<close> and \<open>next\<close> fields of
  every member are as before. Memory differs at most in the two fields of \<open>b\<close> itself,
  and nothing else of the state changes.
\<close>

theorem add_then_remove_restores:
  assumes F: "free_list_is s xs" and nb: "b \<notin> set xs" and ab: "aligned16 b"
  shows "(let s' = removeFromFreeList b (addToFreeList b s) in
            free_list s' = free_list s \<and> free_list_is s' xs
            \<and> (\<forall>x \<in> set xs. get_prev s' x = get_prev s x \<and> get_next s' x = get_next s x)
            \<and> (\<forall>a. a \<noteq> b \<longrightarrow> a \<noteq> b + 8 \<longrightarrow> mem s' a = mem s a)
            \<and> mapped s' = mapped s \<and> unmapped s' = unmapped s \<and> puts s' = puts s)"
proof -
  let ?s1 = "addToFreeList b s"
  let ?s' = "removeFromFreeList b ?s1"
  let ?t = "free_list s"
  from F have d: "dll s 0 ?t xs" and dist: "distinct xs" and al: "list_all aligned16 xs"
    by (simp_all add: free_list_is_def)
  have al': "\<And>x. x \<in> set xs \<Longrightarrow> aligned16 x" using al by (simp add: list_all_iff)
  have pv: "get_prev ?s1 b = ?t" and nx: "get_next ?s1 b = 0"
    by (simp_all add: addToFreeList_alt get_prev_def get_next_def)
  have tn: "?t \<noteq> 0 \<Longrightarrow> mem s (?t + 8) = 0" using d by (cases xs) (auto simp: get_next_def)
  have fl: "free_list ?s' = ?t" using pv nx by (simp add: removeFromFreeList_alt)
  have m: "mem ?s' = (if ?t \<noteq> 0 then (mem s)(?t + 8 := b, b := ?t, b + 8 := 0, ?t + 8 := 0)
                      else (mem s)(b := 0, b + 8 := 0))"
    using pv nx by (simp add: removeFromFreeList_alt) (simp add: addToFreeList_alt)
  have frame: "\<And>a. a \<noteq> b \<Longrightarrow> a \<noteq> b + 8 \<Longrightarrow> mem ?s' a = mem s a"
    using tn by (auto simp add: m)
  have nodes: "\<And>x. x \<in> set xs \<Longrightarrow> mem ?s' x = mem s x \<and> mem ?s' (x + 8) = mem s (x + 8)"
  proof -
    fix x assume x: "x \<in> set xs"
    have "x \<noteq> b" using x nb by auto
    moreover have "x \<noteq> b + 8" "x + 8 \<noteq> b" using al_plus8 al'[OF x] ab by auto
    ultimately show "mem ?s' x = mem s x \<and> mem ?s' (x + 8) = mem s (x + 8)"
      using frame[of x] frame[of "x + 8"] by simp
  qed
  have "dll ?s' 0 ?t xs = dll s 0 ?t xs" by (rule dll_frame) (rule nodes)
  hence "free_list_is ?s' xs" using d dist al fl by (simp add: free_list_is_def)
  moreover have "mapped ?s' = mapped s \<and> unmapped ?s' = unmapped s \<and> puts ?s' = puts s"
    by (simp add: removeFromFreeList_alt addToFreeList_alt)
  ultimately show ?thesis using fl frame nodes by (simp add: Let_def get_prev_def get_next_def)
qed

theorem add_then_remove_restores_witness:
  "free_list_is heap_b [65568, 65920] \<and> 65696 \<notin> set [65568, 65920 :: addr] \<and> aligned16 65696
   \<and> free_list (removeFromFreeList 65696 (addToFreeList 65696 heap_b)) = free_list heap_b
   \<and> free_list_is (removeFromFreeList 65696 (addToFreeList 65696 heap_b)) [65568, 65920]
   \<and> mem (removeFromFreeList 65696 (addToFreeList 65696 heap_b)) 65928 = mem heap_b 65928"
proof -
  have n: "65696 \<notin> set [65568, 65920 :: addr]" by simp
  have a: "aligned16 65696" by (simp add: aligned16_def)
  show ?thesis
    using add_then_remove_restores[OF heap_b_list n a] heap_b_list n a by (simp add: Let_def)
qed

section \<open>Committing a free block\<close>

lemma clear_neq:
  assumes c: "clear_of bp S x" and nw: "unat bp + unat S < 2 ^ 64" and lo: "16 \<le> unat bp"
    and k: "k \<le> S"
  shows "x \<noteq> bp + k - 16"
proof
  assume e: "x = bp + k - 16"
  have k': "unat k \<le> unat S" using k by (simp add: word_le_nat_alt)
  have 1: "unat (bp + k) = unat bp + unat k" using nw k' by (simp add: unat_add_lem[THEN iffD1])
  have "(16::64 word) \<le> bp + k" using lo 1 by (simp add: word_le_nat_alt)
  hence "unat (bp + k - 16) = unat bp + unat k - 16" using 1 by (simp add: unat_sub)
  with e c k' lo show False by (auto simp: clear_of_def)
qed

lemma mem_PUT: "mem (PUT a v s) = (mem s)(a := v)"
  by (simp add: PUT_def)

lemma free_list_PUT [simp]: "free_list (PUT a v s) = free_list s"
  by (simp add: PUT_def)

lemma aligned16_and_m16: "aligned16 w \<Longrightarrow> w AND - 16 = w"
  using aligned16_and_not15[of w] by simp

lemma aligned16_or1_m16: "aligned16 w \<Longrightarrow> (w OR 1) AND - 16 = w"
  using aligned16_or1[of w] by simp

lemma and_m16_aligned: "aligned16 (w AND - 16)"
  using and_not15_aligned[of w] by simp

lemma GET_SIZE_aligned: "aligned16 (GET_SIZE s p)"
  by (simp add: GET_SIZE_def and_m16_aligned)

lemma size_of_PACK: "aligned16 n \<Longrightarrow> PACK n 1 AND - 16 = n" "aligned16 n \<Longrightarrow> PACK n 0 AND - 16 = n"
  by (simp_all add: PACK_def aligned16_or1_m16 aligned16_and_m16)

lemma aligned16_neq8: "aligned16 n \<Longrightarrow> n \<noteq> 8"
  by (auto simp: aligned16_def)

lemma set_allocated_nosplit_eq:
  assumes h: "mem (removeFromFreeList bp s) (bp - 8) = mem s (bp - 8)"
    and ns: "\<not> 32 < GET_SIZE s (HDRP bp) - n"
  shows "set_allocated bp n s =
           PUT (bp + GET_SIZE s (HDRP bp) - 16) (PACK (GET_SIZE s (HDRP bp)) 1)
             (PUT (bp - 8) (PACK (GET_SIZE s (HDRP bp)) 1) (removeFromFreeList bp s))"
  using ns
  by (simp add: set_allocated_def Let_def macro_defs h aligned16_or1_m16 and_m16_aligned)


lemma remove_frame:
  assumes F: "free_list_is s xs" and b: "b \<in> set xs"
    and a: "\<And>x. x \<in> set xs \<Longrightarrow> x \<noteq> b \<Longrightarrow> a \<noteq> x \<and> a \<noteq> x + 8"
  shows "mem (removeFromFreeList b s) a = mem s a"
proof -
  from F have d: "dll s 0 (free_list s) xs" and dist: "distinct xs" by (simp_all add: free_list_is_def)
  from b obtain ys zs where xs: "xs = ys @ b # zs" by (auto simp: in_set_conv_decomp)
  from dll_mid[of s 0 "free_list s" ys b zs] d xs
  have nx: "get_next s b = (if ys = [] then 0 else last ys)"
    and pv: "get_prev s b = (if zs = [] then 0 else hd zs)" by simp_all
  have "get_next s b \<noteq> 0 \<Longrightarrow> get_next s b \<in> set xs \<and> get_next s b \<noteq> b"
    using nx dist xs by (cases "ys = []") auto
  moreover have "get_prev s b \<noteq> 0 \<Longrightarrow> get_prev s b \<in> set xs \<and> get_prev s b \<noteq> b"
    using pv dist xs by (cases "zs = []") auto
  ultimately show ?thesis using a by (auto simp add: removeFromFreeList_alt Let_def)
qed

lemma add_frame:
  "a \<noteq> r \<Longrightarrow> a \<noteq> r + 8 \<Longrightarrow> free_list s = 0 \<or> a \<noteq> free_list s + 8 \<Longrightarrow>
     mem (addToFreeList r s) a = mem s a"
  by (auto simp add: addToFreeList_alt)

lemma free_list_is_PUT:
  assumes "\<And>x. x \<in> set xs \<Longrightarrow> a \<noteq> x \<and> a \<noteq> x + 8"
  shows "free_list_is (PUT a v s) xs = free_list_is s xs"
proof -
  have "dll (PUT a v s) 0 (free_list s) xs = dll s 0 (free_list s) xs"
    by (rule dll_frame) (use assms in \<open>auto simp add: mem_PUT\<close>)
  thus ?thesis by (simp add: free_list_is_def)
qed

lemma free_list_head: "free_list_is s xs \<Longrightarrow> free_list s = 0 \<or> free_list s \<in> set xs"
  by (cases xs) (auto simp add: free_list_is_def)

lemma tag_off_node:
  assumes c: "clear_of bp S x" and nw: "unat bp + unat S < 2 ^ 64" and lo: "16 \<le> unat bp"
    and k: "k \<le> S" and ax: "aligned16 x" and ab: "aligned16 bp" and ak: "aligned16 k"
  shows "bp + k - 16 \<noteq> x" "bp + k - 16 \<noteq> x + 8" "bp + k - 8 \<noteq> x" "bp + k - 8 \<noteq> x + 8"
proof -
  have a: "aligned16 (bp + k - 16)" using ab ak by (simp add: aligned16_add aligned16_diff)
  show 1: "bp + k - 16 \<noteq> x" using clear_neq[OF c nw lo k] by simp
  show "bp + k - 16 \<noteq> x + 8" using al_plus8[OF ax a] by simp
  have "bp + k - 16 + 8 \<noteq> x" using al_plus8[OF a ax] .
  thus "bp + k - 8 \<noteq> x" by simp
  show "bp + k - 8 \<noteq> x + 8" using 1 by (simp add: algebra_simps)
qed

lemmas tag_defs = GET_def GET_SIZE_def HDRP_def FTRP_def NEXT_BLKP_def OVERHEAD_def
  sizeof_block_header_def sizeof_block_footer_def

lemma unat_lt64: "unat (w::64 word) < 2 ^ 64"
  using unsigned_less[of w, where 'a = nat] by simp

lemma unat_plus: "unat (a::64 word) + unat b < 2 ^ 64 \<Longrightarrow> unat (a + b) = unat a + unat b"
  by (simp add: unat_add_lem[THEN iffD1])

lemma aligned_ge16: "aligned16 p \<Longrightarrow> p \<noteq> 0 \<Longrightarrow> 16 \<le> unat p"
proof -
  assume a: "aligned16 p" "p \<noteq> 0"
  hence "unat p mod 16 = 0" "unat p \<noteq> 0" by (simp_all add: aligned16_unat unat_eq_zero)
  thus ?thesis by presburger
qed

text \<open>
  Claim C6. \<open>set_allocated\<close> commits a free block of size \<open>S\<close> to an allocation of total
  size \<open>n\<close>. The minimum viable block size \<open>ALIGN(1 + OVERHEAD)\<close> is 32. If the leftover
  \<open>S - n\<close> is greater than 32, the block is re-marked \<open>(n, allocated)\<close> in header and
  footer, the remainder at \<open>bp + n\<close> is marked \<open>(S - n, free)\<close> in header and footer and
  becomes the newest member of the free list; otherwise the block is marked
  \<open>(S, allocated)\<close> at its original size. In both cases the block has left the free list.
  Here the block is a member of a well-formed free list \<open>xs\<close>, \<open>n\<close> is a multiple of 16
  with \<open>16 \<le> n \<le> S\<close>, the block does not wrap around the address space, and the list
  nodes of the other members lie outside the block.
\<close>

theorem set_allocated_commit:
  assumes F: "free_list_is s xs" and bm: "bp \<in> set xs"
    and an: "aligned16 n" and n16: "16 \<le> n" and nS: "n \<le> GET_SIZE s (HDRP bp)"
    and nw: "unat bp + unat (GET_SIZE s (HDRP bp)) < 2 ^ 64"
    and sep: "\<forall>x\<in>set xs. x \<noteq> bp \<longrightarrow> clear_of bp (GET_SIZE s (HDRP bp)) x"
  shows "ALIGN (1 + OVERHEAD) = 32 \<and>
         (let S = GET_SIZE s (HDRP bp); s' = set_allocated bp n s in
            if 32 < S - n then
              GET s' (HDRP bp) = PACK n 1 \<and> GET s' (FTRP s' bp) = PACK n 1
              \<and> NEXT_BLKP s' bp = bp + n
              \<and> GET s' (HDRP (bp + n)) = PACK (S - n) 0
              \<and> GET s' (FTRP s' (bp + n)) = PACK (S - n) 0
              \<and> free_list_is s' ((bp + n) # remove1 bp xs)
            else
              GET s' (HDRP bp) = PACK S 1 \<and> GET s' (FTRP s' bp) = PACK S 1
              \<and> free_list_is s' (remove1 bp xs))"
proof -
  let ?S = "GET_SIZE s (HDRP bp)"
  let ?ys = "remove1 bp xs"
  let ?s1 = "removeFromFreeList bp s"
  from F have d: "dll s 0 (free_list s) xs" and dist: "distinct xs" and al: "list_all aligned16 xs"
    by (simp_all add: free_list_is_def)
  have aS: "aligned16 ?S" by (rule GET_SIZE_aligned)
  have ab: "aligned16 bp" using al bm by (simp add: list_all_iff)
  have b0: "bp \<noteq> 0" using dll_nonzero[OF d] bm by auto
  have lo: "16 \<le> unat bp" by (rule aligned_ge16[OF ab b0])
  have ys: "\<And>x. x \<in> set ?ys \<Longrightarrow> x \<in> set xs \<and> x \<noteq> bp \<and> aligned16 x \<and> clear_of bp ?S x"
    using dist al sep by (auto simp add: list_all_iff)
  have tags: "\<And>x k. x \<in> set ?ys \<Longrightarrow> k \<le> ?S \<Longrightarrow> aligned16 k \<Longrightarrow>
      bp + k - 16 \<noteq> x \<and> bp + k - 16 \<noteq> x + 8 \<and> bp + k - 8 \<noteq> x \<and> bp + k - 8 \<noteq> x + 8"
    using tag_off_node[OF _ nw lo _ _ ab] ys by blast
  have F1: "free_list_is ?s1 ?ys" by (rule free_list_is_remove[OF F bm])
  have xs_ys: "\<And>x. x \<in> set xs \<Longrightarrow> x \<noteq> bp \<Longrightarrow> x \<in> set ?ys" using dist by auto
  have h: "mem ?s1 (bp - 8) = mem s (bp - 8)"
  proof (rule remove_frame[OF F bm])
    fix x assume "x \<in> set xs" "x \<noteq> bp"
    hence "x \<in> set ?ys" by (rule xs_ys)
    from tags[OF this, of 0] show "bp - 8 \<noteq> x \<and> bp - 8 \<noteq> x + 8" by simp
  qed
  have al32: "ALIGN (1 + OVERHEAD) = 32" by (simp add: macro_defs)
  have S8: "?S \<noteq> 8" "n \<noteq> 8" using aS an by (auto dest: aligned16_neq8)
  show ?thesis
  proof (cases "32 < ?S - n")
    case False
    let ?s' = "PUT (bp + ?S - 16) (PACK ?S 1) (PUT (bp - 8) (PACK ?S 1) ?s1)"
    have eq: "set_allocated bp n s = ?s'" by (rule set_allocated_nosplit_eq[OF h False])
    have hd: "mem ?s' (bp - 8) = PACK ?S 1" using S8 by (simp add: mem_PUT)
    have ft: "mem ?s' (bp + ?S - 16) = PACK ?S 1" by (simp add: mem_PUT)
    have fl: "free_list_is ?s' ?ys"
    proof -
      have "free_list_is ?s' ?ys = free_list_is (PUT (bp - 8) (PACK ?S 1) ?s1) ?ys"
        by (rule free_list_is_PUT) (use tags[of _ ?S] aS in auto)
      also have "\<dots> = free_list_is ?s1 ?ys"
        by (rule free_list_is_PUT) (use tags[of _ 0] in auto)
      finally show ?thesis using F1 by simp
    qed
    show ?thesis using False al32 hd ft fl aS
      by (simp add: Let_def eq tag_defs size_of_PACK)
  next
    case True
    let ?r = "bp + n"
    let ?s2 = "PUT (HDRP bp) (PACK ?S 1) ?s1"
    let ?s3 = "PUT (bp + ?S - 16) (PACK ?S 1) ?s2"
    let ?s4 = "PUT (HDRP bp) (PACK n 1) ?s3"
    let ?s5 = "PUT (bp + n - 16) (PACK n 1) ?s4"
    let ?s6 = "addToFreeList ?r ?s5"
    let ?s7 = "PUT (HDRP ?r) (PACK (?S - n) 0) ?s6"
    let ?s8 = "PUT (bp + ?S - 16) (PACK (?S - n) 0) ?s7"
    have aSn: "aligned16 (?S - n)" using aS an by (rule aligned16_diff)
    have n0: "n \<noteq> 0" using n16 by auto
    have Sn: "?S - n \<noteq> 0" "?S - n \<noteq> 16" "?S - n \<noteq> 8" "?S - n \<noteq> 24"
      using True aSn by (auto simp: aligned16_def)
    have un: "unat n \<le> unat ?S" using nS by (simp add: word_le_nat_alt)
    have uSn: "unat (?S - n) = unat ?S - unat n" using nS by (simp add: unat_sub)
    have u32: "32 < unat ?S - unat n" using True uSn by (simp add: word_less_nat_alt)
    have n16S: "n + 16 \<le> ?S"
    proof -
      have "unat (n + 16) = unat n + unat (16::64 word)"
        by (rule unat_plus) (use un u32 unat_lt64[of ?S] in simp)
      thus ?thesis using u32 by (simp add: word_le_nat_alt)
    qed
    have an16: "aligned16 (n + 16)" using an by (simp add: aligned16_add)
    have n16': "n + 16 \<noteq> 0"
    proof
      assume "n + 16 = 0"
      with n16S have "unat (n + 16) = 0" by simp
      moreover have "unat (n + 16) = unat n + unat (16::64 word)"
        by (rule unat_plus) (use un u32 unat_lt64[of ?S] in simp)
      ultimately show False by simp
    qed
    have ar: "aligned16 ?r" using ab an by (rule aligned16_add)
    have r0: "?r \<noteq> 0"
    proof -
      have "unat ?r = unat bp + unat n" by (rule unat_plus) (use nw un in simp)
      thus ?thesis using lo by (auto simp: unat_eq_zero[symmetric])
    qed
    have rys: "?r \<notin> set ?ys"
    proof
      assume "?r \<in> set ?ys"
      from tags[OF this n16S an16] show False by (simp add: algebra_simps)
    qed
    have t: "free_list ?s1 = 0 \<or> (free_list ?s1 \<in> set ?ys)" by (rule free_list_head[OF F1])
    \<comment> \<open>the reads of the straight-line code\<close>
    have r1: "GET_SIZE ?s1 (HDRP bp) = ?S" using h by (simp add: tag_defs)
    have r2a: "GET_SIZE ?s2 (HDRP bp) = ?S" using aS by (simp add: tag_defs mem_PUT size_of_PACK)
    have r2b: "FTRP ?s2 bp = bp + ?S - 16" using r2a by (simp add: FTRP_def OVERHEAD_def sizeof_block_header_def sizeof_block_footer_def)
    have r4: "FTRP ?s4 bp = bp + n - 16" using an by (simp add: tag_defs mem_PUT size_of_PACK)
    have r5: "NEXT_BLKP ?s5 bp = ?r" using an S8 by (simp add: tag_defs mem_PUT size_of_PACK)
    have m5: "mem ?s5 (bp - 8) = PACK n 1" using S8 by (simp add: tag_defs mem_PUT)
    have fl5: "free_list ?s5 = free_list ?s1" by simp
    have m6: "mem ?s6 (bp - 8) = PACK n 1"
    proof -
      have "mem ?s6 (bp - 8) = mem ?s5 (bp - 8)"
      proof (rule add_frame)
        show "bp - 8 \<noteq> ?r" using al_plus8[of "bp - 16" ?r] ab ar by (simp add: aligned16_diff)
        show "bp - 8 \<noteq> ?r + 8" using n16' by (simp add: algebra_simps)
        show "free_list ?s5 = 0 \<or> bp - 8 \<noteq> free_list ?s5 + 8"
          using t tags[of "free_list ?s1" 0] by (auto simp add: fl5)
      qed
      thus ?thesis using m5 by simp
    qed
    have r6: "NEXT_BLKP ?s6 bp = ?r" using m6 an by (simp add: tag_defs size_of_PACK)
    have m7: "mem ?s7 (bp - 8) = PACK n 1" using m6 n0 by (simp add: tag_defs mem_PUT)
    have r7a: "NEXT_BLKP ?s7 bp = ?r" using m7 an by (simp add: tag_defs size_of_PACK)
    have r7b: "FTRP ?s7 ?r = bp + ?S - 16" using aSn by (simp add: tag_defs mem_PUT size_of_PACK)
    have sp: "ALIGN (1 + OVERHEAD) < ?S - n" using True al32 by simp
    have eq: "set_allocated bp n s = ?s8"
      unfolding set_allocated_def Let_def
      by (simp only: r1 r2a r2b r4 r5 r6 r7a r7b sp if_True)
    \<comment> \<open>the boundary tags in the final state\<close>
    have c1: "mem ?s8 (bp - 8) = PACK n 1" using m7 S8 by (simp add: mem_PUT)
    have m5f: "mem ?s5 (bp + n - 16) = PACK n 1" by (simp add: mem_PUT)
    have m6f: "mem ?s6 (bp + n - 16) = PACK n 1"
    proof -
      have "mem ?s6 (bp + n - 16) = mem ?s5 (bp + n - 16)"
      proof (rule add_frame)
        show "bp + n - 16 \<noteq> ?r" by simp
        show "bp + n - 16 \<noteq> ?r + 8" by simp
        show "free_list ?s5 = 0 \<or> bp + n - 16 \<noteq> free_list ?s5 + 8"
          using t tags[of "free_list ?s1" n] nS an by (auto simp add: fl5)
      qed
      thus ?thesis using m5f by simp
    qed
    have c2: "mem ?s8 (bp + n - 16) = PACK n 1"
      using m6f Sn by (simp add: mem_PUT tag_defs)
    have c3: "mem ?s8 (bp + n - 8) = PACK (?S - n) 0" using Sn by (simp add: mem_PUT tag_defs)
    have c4: "mem ?s8 (bp + ?S - 16) = PACK (?S - n) 0" by (simp add: mem_PUT)
    \<comment> \<open>the free list in the final state\<close>
    have F5: "free_list_is ?s5 ?ys"
    proof -
      have "free_list_is ?s5 ?ys = free_list_is ?s4 ?ys"
        by (rule free_list_is_PUT) (use tags[of _ n] nS an in auto)
      also have "\<dots> = free_list_is ?s3 ?ys"
        unfolding HDRP_def sizeof_block_header_def
        by (rule free_list_is_PUT) (use tags[of _ 0] in auto)
      also have "\<dots> = free_list_is ?s2 ?ys"
        by (rule free_list_is_PUT) (use tags[of _ ?S] aS in auto)
      also have "\<dots> = free_list_is ?s1 ?ys"
        unfolding HDRP_def sizeof_block_header_def
        by (rule free_list_is_PUT) (use tags[of _ 0] in auto)
      finally show ?thesis using F1 by simp
    qed
    have F6: "free_list_is ?s6 (?r # ?ys)" by (rule free_list_is_add[OF F5 rys r0 ar])
    have F8: "free_list_is ?s8 (?r # ?ys)"
    proof -
      have "free_list_is ?s8 (?r # ?ys) = free_list_is ?s7 (?r # ?ys)"
      proof (rule free_list_is_PUT)
        fix x assume "x \<in> set (?r # ?ys)"
        moreover have "bp + ?S - 16 \<noteq> ?r \<and> bp + ?S - 16 \<noteq> ?r + 8"
          using Sn by (simp add: algebra_simps) 
        ultimately show "bp + ?S - 16 \<noteq> x \<and> bp + ?S - 16 \<noteq> x + 8"
          using tags[of x ?S] aS by auto
      qed
      also have "\<dots> = free_list_is ?s6 (?r # ?ys)"
        unfolding HDRP_def sizeof_block_header_def
      proof (rule free_list_is_PUT)
        fix x assume "x \<in> set (?r # ?ys)"
        moreover have "bp + n - 8 \<noteq> ?r \<and> bp + n - 8 \<noteq> ?r + 8" by simp
        ultimately show "bp + n - 8 \<noteq> x \<and> bp + n - 8 \<noteq> x + 8"
          using tags[of x n] nS an by auto
      qed
      finally show ?thesis using F6 by simp
    qed
    show ?thesis using True al32 c1 c2 c3 c4 F8 an aSn
      by (simp add: Let_def eq tag_defs size_of_PACK)
  qed
qed

theorem set_allocated_commit_witness:
  "free_list_is heap_b [65568, 65920] \<and> aligned16 80 \<and> (16 :: size_t) \<le> 80
   \<and> GET_SIZE heap_b (HDRP 65568) = 128 \<and> clear_of 65568 128 65920
   \<and> GET (set_allocated 65568 80 heap_b) (HDRP 65568) = PACK 80 1
   \<and> GET (set_allocated 65568 80 heap_b) (HDRP (65568 + 80)) = PACK 48 0
   \<and> free_list_is (set_allocated 65568 80 heap_b) [65568 + 80, 65920]"
proof -
  have S: "GET_SIZE heap_b (HDRP 65568) = 128" by (simp add: tag_defs heap_b_obs)
  have a: "aligned16 80" by (simp add: aligned16_def)
  have c: "clear_of 65568 128 65920" by (simp add: clear_of_def)
  have sep: "\<forall>x\<in>set [65568, 65920]. x \<noteq> 65568 \<longrightarrow> clear_of 65568 (GET_SIZE heap_b (HDRP 65568)) x"
    using c by (simp add: S)
  from set_allocated_commit[OF heap_b_list _ a _ _ _ sep]
  show ?thesis using heap_b_list a S c by (simp add: S Let_def)
qed

section \<open>Release and the boundary tags\<close>

lemma GET_ALLOC_mem: "GET_ALLOC s a = mem s a AND 1"
  by (simp add: GET_ALLOC_def GET_def)

lemma coalesce_none:
  assumes "GET_ALLOC s (HDRP (PREV_BLKP s p)) \<noteq> 0" and "GET_ALLOC s (HDRP (NEXT_BLKP s p)) \<noteq> 0"
  shows "coalesce p s = (p, addToFreeList p s)"
  using assms by (simp add: coalesce_def Let_def)

lemma coalesce_next:
  assumes pa: "GET_ALLOC s (HDRP (PREV_BLKP s p)) \<noteq> 0" and na: "GET_ALLOC s (HDRP (NEXT_BLKP s p)) = 0"
    and f1: "mem (removeFromFreeList (NEXT_BLKP s p) s) (p - 8) = mem s (p - 8)"
    and f2: "mem (removeFromFreeList (NEXT_BLKP s p) s) (NEXT_BLKP s p - 8) = mem s (NEXT_BLKP s p - 8)"
  shows "coalesce p s =
           (p, addToFreeList p
                 (PUT (p + (GET_SIZE s (HDRP p) + GET_SIZE s (HDRP (NEXT_BLKP s p))) - 16)
                      (PACK (GET_SIZE s (HDRP p) + GET_SIZE s (HDRP (NEXT_BLKP s p))) 0)
                   (PUT (HDRP p) (PACK (GET_SIZE s (HDRP p) + GET_SIZE s (HDRP (NEXT_BLKP s p))) 0)
                     (removeFromFreeList (NEXT_BLKP s p) s))))"
proof -
  let ?nb = "NEXT_BLKP s p"
  let ?s1 = "removeFromFreeList ?nb s"
  let ?sz = "GET_SIZE s (HDRP p) + GET_SIZE s (HDRP ?nb)"
  let ?s2 = "PUT (HDRP p) (PACK ?sz 0) ?s1"
  have r1: "NEXT_BLKP ?s1 p = ?nb" using f1 by (simp add: tag_defs)
  have r2: "GET_SIZE ?s1 (HDRP ?nb) = GET_SIZE s (HDRP ?nb)" using f2 by (simp add: tag_defs)
  have asz: "aligned16 ?sz" by (simp add: aligned16_add GET_SIZE_aligned)
  have r3: "FTRP ?s2 p = p + ?sz - 16" using asz by (simp add: tag_defs mem_PUT size_of_PACK)
  show ?thesis
    unfolding coalesce_def Let_def using pa na
    by (simp only: r1 r2 r3 if_True if_False simp_thms)
qed

lemma coalesce_prev:
  assumes pa: "GET_ALLOC s (HDRP (PREV_BLKP s p)) = 0" and na: "GET_ALLOC s (HDRP (NEXT_BLKP s p)) \<noteq> 0"
    and S0: "GET_SIZE s (HDRP p) \<noteq> 0"
  shows "coalesce p s =
           (PREV_BLKP s p,
            PUT (HDRP (PREV_BLKP s p)) (PACK (GET_SIZE s (HDRP p) + GET_SIZE s (HDRP (PREV_BLKP s p))) 0)
              (PUT (FTRP s p) (PACK (GET_SIZE s (HDRP p) + GET_SIZE s (HDRP (PREV_BLKP s p))) 0) s))"
proof -
  let ?q = "PREV_BLKP s p"
  let ?sz = "GET_SIZE s (HDRP p) + GET_SIZE s (HDRP ?q)"
  let ?s1 = "PUT (FTRP s p) (PACK ?sz 0) s"
  let ?s2 = "PUT (HDRP ?q) (PACK ?sz 0) ?s1"
  have aS: "aligned16 (GET_SIZE s (HDRP p))" by (rule GET_SIZE_aligned)
  have ne: "p - 16 \<noteq> p + GET_SIZE s (HDRP p) - 16" using S0 by simp
  have r1: "PREV_BLKP ?s1 p = ?q" using ne by (simp add: PREV_BLKP_def tag_defs mem_PUT)
  have aq: "aligned16 (GET_SIZE s (p - 16))" using GET_SIZE_aligned[of s "p - 16"] .
  have ne2: "p - 16 \<noteq> p - GET_SIZE s (p - 16) - 8"
  proof
    assume "p - 16 = p - GET_SIZE s (p - 16) - 8"
    hence "GET_SIZE s (p - 16) = 8" by (simp add: algebra_simps)
    with aq show False by (auto dest: aligned16_neq8)
  qed
  have r2: "PREV_BLKP ?s2 p = ?q" using ne ne2 by (simp add: PREV_BLKP_def tag_defs mem_PUT)
  show ?thesis
    unfolding coalesce_def Let_def using pa na
    by (simp only: r1 r2 if_True if_False simp_thms)
qed


lemma coalesce_both:
  assumes pa: "GET_ALLOC s (HDRP (PREV_BLKP s p)) = 0" and na: "GET_ALLOC s (HDRP (NEXT_BLKP s p)) = 0"
    and f1: "mem (removeFromFreeList (NEXT_BLKP s p) s) (p - 8) = mem s (p - 8)"
    and f2: "mem (removeFromFreeList (NEXT_BLKP s p) s) (NEXT_BLKP s p - 8) = mem s (NEXT_BLKP s p - 8)"
    and f3: "mem (removeFromFreeList (NEXT_BLKP s p) s) (p - 16) = mem s (p - 16)"
    and f4: "mem (removeFromFreeList (NEXT_BLKP s p) s) (PREV_BLKP s p - 8) = mem s (PREV_BLKP s p - 8)"
    and d1: "PREV_BLKP s p \<noteq> p" and d2: "PREV_BLKP s p \<noteq> NEXT_BLKP s p"
    and d3: "NEXT_BLKP s p + GET_SIZE s (HDRP (NEXT_BLKP s p)) \<noteq> p"
  shows "coalesce p s =
           (PREV_BLKP s p,
            PUT (NEXT_BLKP s p + GET_SIZE s (HDRP (NEXT_BLKP s p)) - 16)
                (PACK (GET_SIZE s (HDRP p) + (GET_SIZE s (HDRP (PREV_BLKP s p))
                                              + GET_SIZE s (HDRP (NEXT_BLKP s p)))) 0)
              (PUT (HDRP (PREV_BLKP s p))
                   (PACK (GET_SIZE s (HDRP p) + (GET_SIZE s (HDRP (PREV_BLKP s p))
                                                 + GET_SIZE s (HDRP (NEXT_BLKP s p)))) 0)
                 (removeFromFreeList (NEXT_BLKP s p) s)))"
proof -
  let ?nb = "NEXT_BLKP s p" and ?q = "PREV_BLKP s p"
  let ?s1 = "removeFromFreeList ?nb s"
  let ?sz = "GET_SIZE s (HDRP p) + (GET_SIZE s (HDRP ?q) + GET_SIZE s (HDRP ?nb))"
  let ?s2 = "PUT (HDRP ?q) (PACK ?sz 0) ?s1"
  let ?s3 = "PUT (?nb + GET_SIZE s (HDRP ?nb) - 16) (PACK ?sz 0) ?s2"
  have r1: "PREV_BLKP ?s1 p = ?q" using f3 by (simp add: PREV_BLKP_def tag_defs)
  have r2: "GET_SIZE ?s1 (HDRP ?q) = GET_SIZE s (HDRP ?q)" using f4 by (simp add: tag_defs)
  have r3: "NEXT_BLKP ?s1 p = ?nb" using f1 by (simp add: tag_defs)
  have r4: "GET_SIZE ?s1 (HDRP ?nb) = GET_SIZE s (HDRP ?nb)" using f2 by (simp add: tag_defs)
  have r5: "NEXT_BLKP ?s2 p = ?nb" using f1 d1 by (simp add: tag_defs mem_PUT)
  have r6: "FTRP ?s2 ?nb = ?nb + GET_SIZE s (HDRP ?nb) - 16"
    using f2 d2 by (simp add: tag_defs mem_PUT)
  have aq: "aligned16 (GET_SIZE s (p - 16))" using GET_SIZE_aligned[of s "p - 16"] .
  have ne2: "p - 16 \<noteq> ?q - 8"
  proof
    assume "p - 16 = ?q - 8"
    hence "GET_SIZE s (p - 16) = 8" by (simp add: PREV_BLKP_def tag_defs algebra_simps)
    with aq show False by (auto dest: aligned16_neq8)
  qed
  have ne3: "p - 16 \<noteq> ?nb + GET_SIZE s (HDRP ?nb) - 16" using d3 by (simp add: algebra_simps)
  have r7: "PREV_BLKP ?s3 p = ?q"
    using f3 ne2 ne3 by (simp add: PREV_BLKP_def OVERHEAD_def sizeof_block_header_def
        sizeof_block_footer_def GET_SIZE_def GET_def HDRP_def mem_PUT)
  show ?thesis
    unfolding coalesce_def Let_def using pa na
    by (simp only: r1 r2 r3 r4 r5 r6 r7 if_True if_False simp_thms)
qed

lemma hdr_ftr_neq: "aligned16 (u - v) \<Longrightarrow> u - 8 \<noteq> v - 16"
proof
  assume a: "aligned16 (u - v)" and e: "u - 8 = v - 16"
  from e have "u - v = - 8" by (simp add: algebra_simps)
  with a show False by (simp add: aligned16_def)
qed

lemma PACK0: "PACK n 0 = n"
  by (simp add: PACK_def)

lemma release_reads:
  assumes ok: "release_ok s xs p"
  shows "PREV_BLKP (PUT (HDRP p) (PACK (GET_SIZE s (HDRP p)) 0) s) p = PREV_BLKP s p"
    and "NEXT_BLKP (PUT (HDRP p) (PACK (GET_SIZE s (HDRP p)) 0) s) p = NEXT_BLKP s p"
    and "GET_SIZE (PUT (HDRP p) (PACK (GET_SIZE s (HDRP p)) 0) s) (HDRP p) = GET_SIZE s (HDRP p)"
    and "mem (PUT (HDRP p) (PACK (GET_SIZE s (HDRP p)) 0) s) (PREV_BLKP s p - 8) = mem s (PREV_BLKP s p - 8)"
    and "mem (PUT (HDRP p) (PACK (GET_SIZE s (HDRP p)) 0) s) (NEXT_BLKP s p - 8) = mem s (NEXT_BLKP s p - 8)"
    and "FTRP (PUT (HDRP p) (PACK (GET_SIZE s (HDRP p)) 0) s) p = FTRP s p"
    and "mem (PUT (HDRP p) (PACK (GET_SIZE s (HDRP p)) 0) s) (FTRP s p) = mem s (FTRP s p)"
    and "free_list_is (PUT (HDRP p) (PACK (GET_SIZE s (HDRP p)) 0) s) xs"
proof -
  let ?S = "GET_SIZE s (HDRP p)"
  let ?s0 = "PUT (HDRP p) (PACK ?S 0) s"
  have aS: "aligned16 ?S" by (rule GET_SIZE_aligned)
  have S32: "32 \<le> ?S" and Sp0: "GET_SIZE s (p - 16) \<noteq> 0" and F: "free_list_is s xs"
    and N: "\<forall>x\<in>set xs. \<forall>a\<in>set (tags_of s p). a \<noteq> x \<and> a \<noteq> x + 8"
    using ok by (simp_all add: release_ok_def OVERHEAD_def sizeof_block_header_def sizeof_block_footer_def)
  have S0: "?S \<noteq> 0" "?S \<noteq> 8" using S32 aS by (auto dest: aligned16_neq8)
  show "PREV_BLKP ?s0 p = PREV_BLKP s p" by (simp add: PREV_BLKP_def tag_defs mem_PUT)
  show "NEXT_BLKP ?s0 p = NEXT_BLKP s p" using aS by (simp add: tag_defs mem_PUT PACK0 aligned16_and_m16)
  show "GET_SIZE ?s0 (HDRP p) = ?S" using aS by (simp add: tag_defs mem_PUT PACK0 aligned16_and_m16)
  show "mem ?s0 (PREV_BLKP s p - 8) = mem s (PREV_BLKP s p - 8)"
    using Sp0 by (simp add: PREV_BLKP_def tag_defs mem_PUT)
  show "mem ?s0 (NEXT_BLKP s p - 8) = mem s (NEXT_BLKP s p - 8)"
    using S0 by (simp add: tag_defs mem_PUT)
  show "FTRP ?s0 p = FTRP s p" using aS by (simp add: tag_defs mem_PUT PACK0 aligned16_and_m16)
  show "mem ?s0 (FTRP s p) = mem s (FTRP s p)" using S0 by (simp add: tag_defs mem_PUT)
  have "free_list_is ?s0 xs = free_list_is s xs"
    by (rule free_list_is_PUT) (use N in \<open>simp add: tags_of_def\<close>)
  thus "free_list_is ?s0 xs" using F by simp
qed

lemma release_ok_nodes:
  assumes ok: "release_ok s xs p" and x: "x \<in> set xs"
  shows "PREV_BLKP s p - 8 \<noteq> x \<and> PREV_BLKP s p - 8 \<noteq> x + 8"
    and "p - 16 \<noteq> x \<and> p - 16 \<noteq> x + 8"
    and "p - 8 \<noteq> x \<and> p - 8 \<noteq> x + 8"
    and "FTRP s p \<noteq> x \<and> FTRP s p \<noteq> x + 8"
    and "NEXT_BLKP s p - 8 \<noteq> x \<and> NEXT_BLKP s p - 8 \<noteq> x + 8"
    and "FTRP s (NEXT_BLKP s p) \<noteq> x \<and> FTRP s (NEXT_BLKP s p) \<noteq> x + 8"
  using ok x
  by (simp_all add: release_ok_def tags_of_def HDRP_def OVERHEAD_def sizeof_block_header_def
        sizeof_block_footer_def)

lemma release_case_none:
  fixes s :: heap and p :: addr
  defines "s0 \<equiv> PUT (HDRP p) (PACK (GET_SIZE s (HDRP p)) 0) s"
  assumes ok: "release_ok s xs p"
    and pa: "GET_ALLOC s (HDRP (PREV_BLKP s p)) \<noteq> 0"
    and na: "GET_ALLOC s (HDRP (NEXT_BLKP s p)) \<noteq> 0"
  shows "coalesce p s0 = (p, addToFreeList p s0)"
    and "GET (addToFreeList p s0) (HDRP p) = PACK (GET_SIZE s (HDRP p)) 0"
    and "FTRP (addToFreeList p s0) p = FTRP s p"
    and "GET (addToFreeList p s0) (FTRP s p) = GET s (FTRP s p)"
    and "free_list_is (addToFreeList p s0) (p # xs)"
proof -
  let ?S = "GET_SIZE s (HDRP p)"
  let ?s' = "addToFreeList p s0"
  note rd = release_reads[OF ok, folded s0_def]
  have aS: "aligned16 ?S" by (rule GET_SIZE_aligned)
  have S32: "32 \<le> ?S" and ap: "aligned16 p" and p0: "p \<noteq> 0" and pn: "p \<notin> set xs"
    using ok by (simp_all add: release_ok_def)
  have S0: "?S \<noteq> 16" "?S \<noteq> 24" using S32 aS by (auto simp: aligned16_def)
  have F0: "free_list_is s0 xs" by (rule rd(8))
  have t: "free_list s0 = 0 \<or> free_list s0 \<in> set xs" by (rule free_list_head[OF F0])
  have pa0: "GET_ALLOC s0 (HDRP (PREV_BLKP s0 p)) \<noteq> 0"
    using pa rd(4) by (simp add: rd(1) GET_ALLOC_mem HDRP_def sizeof_block_header_def)
  have na0: "GET_ALLOC s0 (HDRP (NEXT_BLKP s0 p)) \<noteq> 0"
    using na rd(5) by (simp add: rd(2) GET_ALLOC_mem HDRP_def sizeof_block_header_def)
  show "coalesce p s0 = (p, ?s')" by (rule coalesce_none[OF pa0 na0])
  have h: "mem ?s' (p - 8) = mem s0 (p - 8)"
  proof (rule add_frame)
    show "p - 8 \<noteq> p" by simp
    show "p - 8 \<noteq> p + 8" by simp
    show "free_list s0 = 0 \<or> p - 8 \<noteq> free_list s0 + 8"
      using t release_ok_nodes(3)[OF ok] by auto
  qed
  show "GET ?s' (HDRP p) = PACK ?S 0" using h by (simp add: tag_defs s0_def mem_PUT)
  thus "FTRP ?s' p = FTRP s p" using aS by (simp add: tag_defs PACK0 aligned16_and_m16)
  have "mem ?s' (FTRP s p) = mem s0 (FTRP s p)"
  proof (rule add_frame)
    show "FTRP s p \<noteq> p" using S0 by (simp add: tag_defs)
    show "FTRP s p \<noteq> p + 8" using S0 by (simp add: tag_defs)
    show "free_list s0 = 0 \<or> FTRP s p \<noteq> free_list s0 + 8"
      using t release_ok_nodes(4)[OF ok] by auto
  qed
  thus "GET ?s' (FTRP s p) = GET s (FTRP s p)" using rd(7) by (simp add: GET_def)
  show "free_list_is ?s' (p # xs)" by (rule free_list_is_add[OF F0 pn p0 ap])
qed

lemma release_case_prev:
  fixes s :: heap and p :: addr
  defines "s0 \<equiv> PUT (HDRP p) (PACK (GET_SIZE s (HDRP p)) 0) s"
    and "sz \<equiv> GET_SIZE s (HDRP p) + GET_SIZE s (HDRP (PREV_BLKP s p))"
  assumes ok: "release_ok s xs p"
    and pa: "GET_ALLOC s (HDRP (PREV_BLKP s p)) = 0"
    and na: "GET_ALLOC s (HDRP (NEXT_BLKP s p)) \<noteq> 0"
  shows "fst (coalesce p s0) = PREV_BLKP s p"
    and "GET (snd (coalesce p s0)) (HDRP (PREV_BLKP s p)) = PACK sz 0"
    and "FTRP (snd (coalesce p s0)) (PREV_BLKP s p) = FTRP s p"
    and "GET (snd (coalesce p s0)) (FTRP s p) = PACK sz 0"
    and "free_list_is (snd (coalesce p s0)) xs"
    and "snd (coalesce p s0) =
           PUT (HDRP (PREV_BLKP s p)) (PACK sz 0) (PUT (FTRP s p) (PACK sz 0) s0)"
proof -
  let ?S = "GET_SIZE s (HDRP p)"
  let ?q = "PREV_BLKP s p"
  let ?s' = "PUT (HDRP ?q) (PACK sz 0) (PUT (FTRP s p) (PACK sz 0) s0)"
  note rd = release_reads[OF ok, folded s0_def]
  have aS: "aligned16 ?S" by (rule GET_SIZE_aligned)
  have asz: "aligned16 sz" by (simp add: sz_def aligned16_add GET_SIZE_aligned)
  have S32: "32 \<le> ?S" and hf: "GET_SIZE s (HDRP ?q) = GET_SIZE s (p - 16)"
    using ok by (simp_all add: release_ok_def OVERHEAD_def sizeof_block_header_def sizeof_block_footer_def)
  have S0: "?S \<noteq> 0" using S32 by auto
  have F0: "free_list_is s0 xs" by (rule rd(8))
  have pa0: "GET_ALLOC s0 (HDRP (PREV_BLKP s0 p)) = 0"
    using pa rd(4) by (simp add: rd(1) GET_ALLOC_mem HDRP_def sizeof_block_header_def)
  have na0: "GET_ALLOC s0 (HDRP (NEXT_BLKP s0 p)) \<noteq> 0"
    using na rd(5) by (simp add: rd(2) GET_ALLOC_mem HDRP_def sizeof_block_header_def)
  have S00: "GET_SIZE s0 (HDRP p) \<noteq> 0" using S0 by (simp add: rd(3))
  have Sq: "GET_SIZE s0 (HDRP ?q) = GET_SIZE s (HDRP ?q)"
    using rd(4) by (simp add: GET_SIZE_def GET_def HDRP_def sizeof_block_header_def)
  have co: "coalesce p s0 = (?q, ?s')"
    using coalesce_prev[OF pa0 na0 S00] by (simp add: rd(1) rd(3) rd(6) Sq sz_def)
  show "fst (coalesce p s0) = ?q" by (simp add: co)
  have qf: "HDRP ?q \<noteq> FTRP s p"
  proof -
    have "?q - (p + ?S) = 0 - (GET_SIZE s (p - 16) + ?S)"
      by (simp add: PREV_BLKP_def OVERHEAD_def sizeof_block_header_def sizeof_block_footer_def)
    hence "aligned16 (?q - (p + ?S))" using aS GET_SIZE_aligned[of s "p - 16"]
      by (simp only: aligned16_diff aligned16_add aligned16_numeral)
    from hdr_ftr_neq[OF this] show ?thesis by (simp add: tag_defs)
  qed
  show "GET (snd (coalesce p s0)) (HDRP ?q) = PACK sz 0" by (simp add: co GET_def mem_PUT)
  thus "FTRP (snd (coalesce p s0)) ?q = FTRP s p"
    using asz hf
    by (simp add: FTRP_def[of _ ?q] PACK0 GET_SIZE_def aligned16_and_m16 sz_def)
       (simp add: PREV_BLKP_def tag_defs)
  show "GET (snd (coalesce p s0)) (FTRP s p) = PACK sz 0" using qf by (simp add: co GET_def mem_PUT)
  have "free_list_is ?s' xs = free_list_is (PUT (FTRP s p) (PACK sz 0) s0) xs"
    unfolding HDRP_def sizeof_block_header_def
    by (rule free_list_is_PUT) (use release_ok_nodes(1)[OF ok] in auto)
  also have "\<dots> = free_list_is s0 xs"
    by (rule free_list_is_PUT) (use release_ok_nodes(4)[OF ok] in auto)
  finally show "free_list_is (snd (coalesce p s0)) xs" using F0 by (simp add: co)
  show "snd (coalesce p s0) = ?s'" by (simp add: co)
qed

lemma release_ok_sizes:
  assumes ok: "release_ok s xs p" and na: "GET_ALLOC s (HDRP (NEXT_BLKP s p)) = 0"
  shows "NEXT_BLKP s p \<in> set xs"
    and "unat (GET_SIZE s (HDRP p) + GET_SIZE s (HDRP (NEXT_BLKP s p))) =
           unat (GET_SIZE s (HDRP p)) + unat (GET_SIZE s (HDRP (NEXT_BLKP s p)))"
    and "64 \<le> unat (GET_SIZE s (HDRP p)) + unat (GET_SIZE s (HDRP (NEXT_BLKP s p)))"
proof -
  let ?S = "GET_SIZE s (HDRP p)" and ?Sn = "GET_SIZE s (HDRP (NEXT_BLKP s p))"
  from ok na show "NEXT_BLKP s p \<in> set xs" by (simp add: release_ok_def)
  from ok na have a: "32 \<le> ?S" "32 \<le> ?Sn" and nw: "unat p + unat ?S + unat ?Sn < 2 ^ 64"
    by (simp_all add: release_ok_def)
  show "unat (?S + ?Sn) = unat ?S + unat ?Sn" by (rule unat_plus) (use nw in simp)
  show "64 \<le> unat ?S + unat ?Sn" using a by (simp add: word_le_nat_alt)
qed

lemma release_case_next:
  fixes s :: heap and p :: addr
  defines "s0 \<equiv> PUT (HDRP p) (PACK (GET_SIZE s (HDRP p)) 0) s"
    and "sz \<equiv> GET_SIZE s (HDRP p) + GET_SIZE s (HDRP (NEXT_BLKP s p))"
  assumes ok: "release_ok s xs p"
    and pa: "GET_ALLOC s (HDRP (PREV_BLKP s p)) \<noteq> 0"
    and na: "GET_ALLOC s (HDRP (NEXT_BLKP s p)) = 0"
  shows "fst (coalesce p s0) = p"
    and "GET (snd (coalesce p s0)) (HDRP p) = PACK sz 0"
    and "FTRP (snd (coalesce p s0)) p = FTRP s (NEXT_BLKP s p)"
    and "GET (snd (coalesce p s0)) (FTRP s (NEXT_BLKP s p)) = PACK sz 0"
    and "free_list_is (snd (coalesce p s0)) (p # remove1 (NEXT_BLKP s p) xs)"
    and "snd (coalesce p s0) =
           addToFreeList p
             (PUT (FTRP s (NEXT_BLKP s p)) (PACK sz 0)
                (PUT (HDRP p) (PACK sz 0) (removeFromFreeList (NEXT_BLKP s p) s0)))"
proof -
  let ?S = "GET_SIZE s (HDRP p)"
  let ?nb = "NEXT_BLKP s p"
  let ?ys = "remove1 ?nb xs"
  let ?s1 = "removeFromFreeList ?nb s0"
  let ?s3 = "PUT (p + sz - 16) (PACK sz 0) (PUT (HDRP p) (PACK sz 0) ?s1)"
  let ?s' = "addToFreeList p ?s3"
  note rd = release_reads[OF ok, folded s0_def]
  note szs = release_ok_sizes[OF ok na]
  have asz: "aligned16 sz" by (simp add: sz_def aligned16_add GET_SIZE_aligned)
  have ap: "aligned16 p" and p0: "p \<noteq> 0" and pn: "p \<notin> set xs"
    using ok by (simp_all add: release_ok_def)
  have sz0: "sz \<noteq> 8" "sz \<noteq> 16" "sz \<noteq> 24"
    using asz szs(2,3) by (auto simp: sz_def aligned16_def)
  have fn: "FTRP s ?nb = p + sz - 16" by (simp add: sz_def tag_defs)
  have F0: "free_list_is s0 xs" by (rule rd(8))
  have F1: "free_list_is ?s1 ?ys" by (rule free_list_is_remove[OF F0 szs(1)])
  have sub: "\<And>x. x \<in> set ?ys \<Longrightarrow> x \<in> set xs" using notin_set_remove1 by fastforce
  have pa0: "GET_ALLOC s0 (HDRP (PREV_BLKP s0 p)) \<noteq> 0"
    using pa rd(4) by (simp add: rd(1) GET_ALLOC_mem HDRP_def sizeof_block_header_def)
  have na0: "GET_ALLOC s0 (HDRP (NEXT_BLKP s0 p)) = 0"
    using na rd(5) by (simp add: rd(2) GET_ALLOC_mem HDRP_def sizeof_block_header_def)
  have f1: "mem (removeFromFreeList (NEXT_BLKP s0 p) s0) (p - 8) = mem s0 (p - 8)"
    unfolding rd(2) by (rule remove_frame[OF F0 szs(1)]) (use release_ok_nodes(3)[OF ok] in auto)
  have f2: "mem (removeFromFreeList (NEXT_BLKP s0 p) s0) (NEXT_BLKP s0 p - 8) = mem s0 (NEXT_BLKP s0 p - 8)"
    unfolding rd(2) by (rule remove_frame[OF F0 szs(1)]) (use release_ok_nodes(5)[OF ok] in auto)
  have Sn: "GET_SIZE s0 (HDRP ?nb) = GET_SIZE s (HDRP ?nb)"
    using rd(5) by (simp add: GET_SIZE_def GET_def HDRP_def sizeof_block_header_def)
  have co: "coalesce p s0 = (p, ?s')"
    using coalesce_next[OF pa0 na0 f1 f2] by (simp add: rd(2) rd(3) Sn sz_def)
  show "fst (coalesce p s0) = p" by (simp add: co)
  have F3: "free_list_is ?s3 ?ys"
  proof -
    have "free_list_is ?s3 ?ys = free_list_is (PUT (HDRP p) (PACK sz 0) ?s1) ?ys"
      by (rule free_list_is_PUT) (use release_ok_nodes(6)[OF ok] sub fn in auto)
    also have "\<dots> = free_list_is ?s1 ?ys"
      unfolding HDRP_def sizeof_block_header_def
      by (rule free_list_is_PUT) (use release_ok_nodes(3)[OF ok] sub in auto)
    finally show ?thesis using F1 by simp
  qed
  have t: "free_list ?s3 = 0 \<or> free_list ?s3 \<in> set xs" using free_list_head[OF F3] sub by auto
  have "p \<notin> set ?ys" using pn sub by auto
  hence F': "free_list_is ?s' (p # ?ys)" by (rule free_list_is_add[OF F3 _ p0 ap])
  show "free_list_is (snd (coalesce p s0)) (p # ?ys)" using F' by (simp add: co)
  have "mem ?s' (p - 8) = mem ?s3 (p - 8)"
  proof (rule add_frame)
    show "p - 8 \<noteq> p" by simp
    show "p - 8 \<noteq> p + 8" by simp
    show "free_list ?s3 = 0 \<or> p - 8 \<noteq> free_list ?s3 + 8"
      using t release_ok_nodes(3)[OF ok] by auto
  qed
  hence h: "mem ?s' (p - 8) = PACK sz 0" using sz0 by (simp add: mem_PUT HDRP_def sizeof_block_header_def)
  show "GET (snd (coalesce p s0)) (HDRP p) = PACK sz 0" using h by (simp add: co tag_defs)
  have "FTRP ?s' p = p + sz - 16" using h asz by (simp add: tag_defs PACK0 aligned16_and_m16)
  thus "FTRP (snd (coalesce p s0)) p = FTRP s ?nb" by (simp add: co fn)
  have "mem ?s' (p + sz - 16) = mem ?s3 (p + sz - 16)"
  proof (rule add_frame)
    show "p + sz - 16 \<noteq> p" using sz0 by simp
    show "p + sz - 16 \<noteq> p + 8" using sz0 by simp
    show "free_list ?s3 = 0 \<or> p + sz - 16 \<noteq> free_list ?s3 + 8"
      using t release_ok_nodes(6)[OF ok] fn by auto
  qed
  thus "GET (snd (coalesce p s0)) (FTRP s ?nb) = PACK sz 0" by (simp add: co fn GET_def mem_PUT)
  show "snd (coalesce p s0) =
          addToFreeList p (PUT (FTRP s ?nb) (PACK sz 0) (PUT (HDRP p) (PACK sz 0) ?s1))"
    by (simp add: co fn)
qed

lemma release_case_both:
  fixes s :: heap and p :: addr
  defines "s0 \<equiv> PUT (HDRP p) (PACK (GET_SIZE s (HDRP p)) 0) s"
    and "sz \<equiv> GET_SIZE s (HDRP p) + (GET_SIZE s (HDRP (PREV_BLKP s p))
                                      + GET_SIZE s (HDRP (NEXT_BLKP s p)))"
  assumes ok: "release_ok s xs p"
    and pa: "GET_ALLOC s (HDRP (PREV_BLKP s p)) = 0"
    and na: "GET_ALLOC s (HDRP (NEXT_BLKP s p)) = 0"
  shows "fst (coalesce p s0) = PREV_BLKP s p"
    and "GET (snd (coalesce p s0)) (HDRP (PREV_BLKP s p)) = PACK sz 0"
    and "FTRP (snd (coalesce p s0)) (PREV_BLKP s p) = FTRP s (NEXT_BLKP s p)"
    and "GET (snd (coalesce p s0)) (FTRP s (NEXT_BLKP s p)) = PACK sz 0"
    and "free_list_is (snd (coalesce p s0)) (remove1 (NEXT_BLKP s p) xs)"
    and "snd (coalesce p s0) =
           PUT (FTRP s (NEXT_BLKP s p)) (PACK sz 0)
             (PUT (HDRP (PREV_BLKP s p)) (PACK sz 0) (removeFromFreeList (NEXT_BLKP s p) s0))"
proof -
  let ?S = "GET_SIZE s (HDRP p)"
  let ?nb = "NEXT_BLKP s p" and ?q = "PREV_BLKP s p"
  let ?Sp = "GET_SIZE s (p - 16)" and ?Sn = "GET_SIZE s (HDRP ?nb)"
  let ?ys = "remove1 ?nb xs"
  let ?s1 = "removeFromFreeList ?nb s0"
  let ?s' = "PUT (?nb + ?Sn - 16) (PACK sz 0) (PUT (HDRP ?q) (PACK sz 0) ?s1)"
  note rd = release_reads[OF ok, folded s0_def]
  note szs = release_ok_sizes[OF ok na]
  have asz: "aligned16 sz" by (simp add: sz_def aligned16_add GET_SIZE_aligned)
  have aS: "aligned16 ?S" by (rule GET_SIZE_aligned)
  have aSp: "aligned16 ?Sp" by (rule GET_SIZE_aligned)
  have aSn: "aligned16 ?Sn" by (rule GET_SIZE_aligned)
  have hf: "GET_SIZE s (HDRP ?q) = ?Sp" and Sp0: "?Sp \<noteq> 0" and Spp: "unat ?Sp \<le> unat p"
    and S32: "32 \<le> ?S" and nw: "unat p + unat ?S + unat ?Sn < 2 ^ 64"
    using ok by (simp_all add: release_ok_def OVERHEAD_def sizeof_block_header_def sizeof_block_footer_def)
  have q: "?q = p - ?Sp" by (simp add: PREV_BLKP_def OVERHEAD_def sizeof_block_header_def sizeof_block_footer_def)
  have nb: "?nb = p + ?S" by (simp add: NEXT_BLKP_def)
  have fn: "FTRP s ?nb = ?nb + ?Sn - 16" by (simp add: FTRP_def OVERHEAD_def sizeof_block_header_def sizeof_block_footer_def)
  have F0: "free_list_is s0 xs" by (rule rd(8))
  have F1: "free_list_is ?s1 ?ys" by (rule free_list_is_remove[OF F0 szs(1)])
  have sub: "\<And>x. x \<in> set ?ys \<Longrightarrow> x \<in> set xs" using notin_set_remove1 by fastforce
  have pa0: "GET_ALLOC s0 (HDRP (PREV_BLKP s0 p)) = 0"
    using pa rd(4) by (simp add: rd(1) GET_ALLOC_mem HDRP_def sizeof_block_header_def)
  have na0: "GET_ALLOC s0 (HDRP (NEXT_BLKP s0 p)) = 0"
    using na rd(5) by (simp add: rd(2) GET_ALLOC_mem HDRP_def sizeof_block_header_def)
  have f1: "mem (removeFromFreeList (NEXT_BLKP s0 p) s0) (p - 8) = mem s0 (p - 8)"
    unfolding rd(2) by (rule remove_frame[OF F0 szs(1)]) (use release_ok_nodes(3)[OF ok] in auto)
  have f2: "mem (removeFromFreeList (NEXT_BLKP s0 p) s0) (NEXT_BLKP s0 p - 8) = mem s0 (NEXT_BLKP s0 p - 8)"
    unfolding rd(2) by (rule remove_frame[OF F0 szs(1)]) (use release_ok_nodes(5)[OF ok] in auto)
  have f3: "mem (removeFromFreeList (NEXT_BLKP s0 p) s0) (p - 16) = mem s0 (p - 16)"
    unfolding rd(2) by (rule remove_frame[OF F0 szs(1)]) (use release_ok_nodes(2)[OF ok] in auto)
  have f4: "mem (removeFromFreeList (NEXT_BLKP s0 p) s0) (PREV_BLKP s0 p - 8) = mem s0 (PREV_BLKP s0 p - 8)"
    unfolding rd(1) rd(2) by (rule remove_frame[OF F0 szs(1)]) (use release_ok_nodes(1)[OF ok] in auto)
  have d1: "PREV_BLKP s0 p \<noteq> p" using Sp0 by (simp add: rd(1) q)
  have SpS: "?Sp + ?S \<noteq> 0"
  proof -
    have "unat (?Sp + ?S) = unat ?Sp + unat ?S" by (rule unat_plus) (use Spp nw in simp)
    moreover have "32 \<le> unat ?S" using S32 by (simp add: word_le_nat_alt)
    ultimately show ?thesis by (auto simp: unat_eq_zero[symmetric])
  qed
  have d2: "PREV_BLKP s0 p \<noteq> NEXT_BLKP s0 p"
  proof
    assume "PREV_BLKP s0 p = NEXT_BLKP s0 p"
    hence "p - ?Sp = p + ?S" by (simp add: rd(1) rd(2) q[symmetric] nb[symmetric])
    hence "?Sp + ?S = 0" by (simp add: algebra_simps)
    with SpS show False by simp
  qed
  have Sn0: "GET_SIZE s0 (HDRP ?nb) = ?Sn"
    using rd(5) by (simp add: GET_SIZE_def GET_def HDRP_def sizeof_block_header_def)
  have Sq0: "GET_SIZE s0 (HDRP ?q) = ?Sp"
    using rd(4) hf by (simp add: GET_SIZE_def GET_def HDRP_def sizeof_block_header_def)
  have SSn: "?S + ?Sn \<noteq> 0" using szs(2,3) by (auto simp: unat_eq_zero[symmetric])
  have d3: "NEXT_BLKP s0 p + GET_SIZE s0 (HDRP (NEXT_BLKP s0 p)) \<noteq> p"
  proof
    assume "NEXT_BLKP s0 p + GET_SIZE s0 (HDRP (NEXT_BLKP s0 p)) = p"
    hence "p + ?S + ?Sn = p" by (simp add: rd(2) Sn0 nb[symmetric])
    hence "?S + ?Sn = 0" by (simp add: algebra_simps)
    with SSn show False by simp
  qed
  have co: "coalesce p s0 = (?q, ?s')"
    using coalesce_both[OF pa0 na0 f1 f2 f3 f4 d1 d2 d3] by (simp add: rd(1) rd(2) rd(3) Sn0 Sq0 hf sz_def)
  show "fst (coalesce p s0) = ?q" by (simp add: co)
  have qf: "HDRP ?q \<noteq> ?nb + ?Sn - 16"
  proof -
    have "?q - (?nb + ?Sn) = 0 - (?Sp + (?S + ?Sn))" by (simp add: q nb)
    hence "aligned16 (?q - (?nb + ?Sn))" using aS aSp aSn
      by (simp only: aligned16_diff aligned16_add aligned16_numeral)
    from hdr_ftr_neq[OF this] show ?thesis by (simp add: HDRP_def sizeof_block_header_def)
  qed
  have h: "mem ?s' (?q - 8) = PACK sz 0" using qf by (simp add: mem_PUT HDRP_def sizeof_block_header_def)
  show "GET (snd (coalesce p s0)) (HDRP ?q) = PACK sz 0"
    using h by (simp add: co GET_def HDRP_def sizeof_block_header_def)
  have "FTRP ?s' ?q = ?q + sz - 16"
    using h asz by (simp add: FTRP_def GET_SIZE_def GET_def HDRP_def OVERHEAD_def sizeof_block_header_def
        sizeof_block_footer_def PACK0 aligned16_and_m16)
  moreover have "?q + sz - 16 = ?nb + ?Sn - 16" using hf by (simp add: sz_def q nb)
  ultimately show "FTRP (snd (coalesce p s0)) ?q = FTRP s ?nb" by (simp add: co fn)
  show "GET (snd (coalesce p s0)) (FTRP s ?nb) = PACK sz 0" by (simp add: co fn GET_def mem_PUT)
  have "free_list_is ?s' ?ys = free_list_is (PUT (HDRP ?q) (PACK sz 0) ?s1) ?ys"
    by (rule free_list_is_PUT) (use release_ok_nodes(6)[OF ok] sub fn in auto)
  also have "\<dots> = free_list_is ?s1 ?ys"
    unfolding HDRP_def sizeof_block_header_def
    by (rule free_list_is_PUT) (use release_ok_nodes(1)[OF ok] sub in auto)
  finally show "free_list_is (snd (coalesce p s0)) ?ys" using F1 by (simp add: co)
  show "snd (coalesce p s0) = PUT (FTRP s ?nb) (PACK sz 0) (PUT (HDRP ?q) (PACK sz 0) ?s1)"
    by (simp add: co fn)
qed

lemma mm_free_unfold:
  "mm_free p s =
     (let s' = snd (coalesce p (PUT (HDRP p) (PACK (GET_SIZE s (HDRP p)) 0) s));
          b = fst (coalesce p (PUT (HDRP p) (PACK (GET_SIZE s (HDRP p)) 0) s))
      in if GET_SIZE s' (HDRP (NEXT_BLKP s' b)) = 0 \<and> GET_SIZE s' (HDRP (HDRP b)) = ALIGN OVERHEAD
         then mem_unmap (HDRP (HDRP (HDRP (HDRP b))))
                (GET_SIZE s' (HDRP b) + PAGE_OVERHEAD + sizeof_block_header) (removeFromFreeList b s')
         else s')"
  by (simp add: mm_free_def Let_def case_prod_beta)

lemma tag_word:
  assumes "GET s a = PACK n 0" and "aligned16 n"
  shows "GET_SIZE s a = n" and "GET_ALLOC s a = 0"
  using assms by (simp_all add: GET_SIZE_def GET_ALLOC_def PACK0 aligned16_and_m16 aligned16_and1)

text \<open>
  Claim C4, as stated: after \<open>release(ptr)\<close> returns, header and footer of the released
  block encode the same \<open>(size, allocated)\<close> pair in every coalescing case, also when both
  neighbours are allocated. In the run \<open>init\<close>, \<open>a = allocate(100)\<close>, \<open>b = allocate(200)\<close>,
  \<open>release(a)\<close> both neighbours of \<open>a\<close> (the Prolog and \<open>b\<close>) are allocated; afterwards the
  header of \<open>a\<close> is \<open>(128, free)\<close> and its footer is still \<open>(128, allocated)\<close>.
\<close>

theorem release_keeps_footer_flag:
  "mm_malloc 4096 0 100 heap_i = Some (65568, heap_a)
   \<and> mm_malloc 4096 0 200 heap_a = Some (65696, heap_ab)
   \<and> heap_b = mm_free 65568 heap_ab
   \<and> free_list heap_b = 65568
   \<and> GET heap_ab (HDRP (PREV_BLKP heap_ab 65568)) = PACK 16 1
   \<and> GET heap_ab (HDRP (NEXT_BLKP heap_ab 65568)) = PACK 224 1
   \<and> GET heap_b (HDRP 65568) = PACK 128 0
   \<and> GET heap_b (FTRP heap_b 65568) = PACK 128 1
   \<and> GET heap_b (HDRP 65568) \<noteq> GET heap_b (FTRP heap_b 65568)"
  using heap_a_run heap_ab_run
  by (simp add: heap_b_obs heap_ab_obs tag_defs PREV_BLKP_def PACK_def) (simp add: heap_b_def)

text \<open>
  Claim C4, amended. \<open>mm_free\<close> marks the header of the block free and coalesces. The
  resulting block is the previous block when that one is free, the block itself
  otherwise; its header carries the merged size and the flag 0, and its footer carries
  the same size. When a neighbour was free, header and footer are the same word
  \<open>(merged size, free)\<close>. When both neighbours are allocated, the footer is not written:
  it still holds the word the header had before the call. The free list afterwards is
  the old one without the absorbed successor and with the block itself in front unless
  the predecessor absorbed it. \<open>mm_free\<close> returns this state unless the page is empty
  and is handed back to the provider.
\<close>

theorem mm_free_boundary_tags:
  assumes ok: "release_ok s xs p"
  shows "(let s0 = PUT (HDRP p) (PACK (GET_SIZE s (HDRP p)) 0) s;
              b = fst (coalesce p s0); s' = snd (coalesce p s0);
              pa = GET_ALLOC s (HDRP (PREV_BLKP s p)); na = GET_ALLOC s (HDRP (NEXT_BLKP s p))
          in mm_free p s =
               (if GET_SIZE s' (HDRP (NEXT_BLKP s' b)) = 0
                   \<and> GET_SIZE s' (HDRP (HDRP b)) = ALIGN OVERHEAD
                then mem_unmap (HDRP (HDRP (HDRP (HDRP b))))
                       (GET_SIZE s' (HDRP b) + PAGE_OVERHEAD + sizeof_block_header)
                       (removeFromFreeList b s')
                else s')
             \<and> b = (if pa = 0 then PREV_BLKP s p else p)
             \<and> GET_ALLOC s' (HDRP b) = 0
             \<and> GET_SIZE s' (HDRP b) =
                  GET_SIZE s (HDRP p) + ((if pa = 0 then GET_SIZE s (HDRP (PREV_BLKP s p)) else 0)
                                        + (if na = 0 then GET_SIZE s (HDRP (NEXT_BLKP s p)) else 0))
             \<and> GET_SIZE s' (FTRP s' b) = GET_SIZE s' (HDRP b)
             \<and> (if pa \<noteq> 0 \<and> na \<noteq> 0 then GET s' (FTRP s' b) = GET s (HDRP p)
                 else GET s' (FTRP s' b) = GET s' (HDRP b))
             \<and> free_list_is s' ((if pa \<noteq> 0 then [p] else [])
                                 @ (if na = 0 then remove1 (NEXT_BLKP s p) xs else xs)))"
proof -
  let ?s0 = "PUT (HDRP p) (PACK (GET_SIZE s (HDRP p)) 0) s"
  let ?S = "GET_SIZE s (HDRP p)"
  let ?q = "PREV_BLKP s p" and ?nb = "NEXT_BLKP s p"
  have aS: "aligned16 ?S" by (rule GET_SIZE_aligned)
  have I1: "GET s (FTRP s p) = GET s (HDRP p)" using ok by (simp add: release_ok_def)
  have u: "mm_free p s =
     (if GET_SIZE (snd (coalesce p ?s0)) (HDRP (NEXT_BLKP (snd (coalesce p ?s0)) (fst (coalesce p ?s0)))) = 0
         \<and> GET_SIZE (snd (coalesce p ?s0)) (HDRP (HDRP (fst (coalesce p ?s0)))) = ALIGN OVERHEAD
      then mem_unmap (HDRP (HDRP (HDRP (HDRP (fst (coalesce p ?s0))))))
             (GET_SIZE (snd (coalesce p ?s0)) (HDRP (fst (coalesce p ?s0))) + PAGE_OVERHEAD + sizeof_block_header)
             (removeFromFreeList (fst (coalesce p ?s0)) (snd (coalesce p ?s0)))
      else snd (coalesce p ?s0))"
    using mm_free_unfold[of p s] by (simp add: Let_def)
  consider (none) "GET_ALLOC s (HDRP ?q) \<noteq> 0" "GET_ALLOC s (HDRP ?nb) \<noteq> 0"
    | (nxt) "GET_ALLOC s (HDRP ?q) \<noteq> 0" "GET_ALLOC s (HDRP ?nb) = 0"
    | (prv) "GET_ALLOC s (HDRP ?q) = 0" "GET_ALLOC s (HDRP ?nb) \<noteq> 0"
    | (both) "GET_ALLOC s (HDRP ?q) = 0" "GET_ALLOC s (HDRP ?nb) = 0" by blast
  thus ?thesis
  proof cases
    case none
    note c = release_case_none[OF ok none]
    have w: "GET (snd (coalesce p ?s0)) (HDRP p) = PACK ?S 0" using c(2) by (simp add: c(1))
    have f: "GET (snd (coalesce p ?s0)) (FTRP (snd (coalesce p ?s0)) p) = GET s (HDRP p)"
      using c(3,4) I1 by (simp add: c(1))
    hence fs: "GET_SIZE (snd (coalesce p ?s0)) (FTRP (snd (coalesce p ?s0)) p) = ?S"
      by (simp add: GET_SIZE_def)
    show ?thesis
      using none u tag_word[OF w aS] f fs c(5) by (simp add: Let_def c(1))
  next
    case nxt
    note c = release_case_next[OF ok nxt]
    let ?sz = "?S + GET_SIZE s (HDRP ?nb)"
    have a: "aligned16 ?sz" by (simp add: aligned16_add GET_SIZE_aligned)
    have f: "GET (snd (coalesce p ?s0)) (FTRP (snd (coalesce p ?s0)) p) = PACK ?sz 0"
      using c(3,4) by simp
    show ?thesis
      using nxt u tag_word[OF c(2) a] tag_word[OF f a] f c(2) c(5) by (simp add: Let_def c(1))
  next
    case prv
    note c = release_case_prev[OF ok prv]
    let ?sz = "?S + GET_SIZE s (HDRP ?q)"
    have a: "aligned16 ?sz" by (simp add: aligned16_add GET_SIZE_aligned)
    have f: "GET (snd (coalesce p ?s0)) (FTRP (snd (coalesce p ?s0)) ?q) = PACK ?sz 0"
      using c(3,4) by simp
    show ?thesis
      using prv u tag_word[OF c(2) a] tag_word[OF f a] f c(2) c(5) by (simp add: Let_def c(1))
  next
    case both
    note c = release_case_both[OF ok both]
    let ?sz = "?S + (GET_SIZE s (HDRP ?q) + GET_SIZE s (HDRP ?nb))"
    have a: "aligned16 ?sz" by (simp add: aligned16_add GET_SIZE_aligned)
    have f: "GET (snd (coalesce p ?s0)) (FTRP (snd (coalesce p ?s0)) ?q) = PACK ?sz 0"
      using c(3,4) by simp
    show ?thesis
      using both u tag_word[OF c(2) a] tag_word[OF f a] f c(2) c(5) by (simp add: Let_def c(1))
  qed
qed

theorem mm_free_boundary_tags_witness:
  "release_ok heap_ab [65920] 65568
   \<and> GET_ALLOC heap_ab (HDRP (PREV_BLKP heap_ab 65568)) = 1
   \<and> GET_ALLOC heap_ab (HDRP (NEXT_BLKP heap_ab 65568)) = 1
   \<and> (let s0 = PUT (HDRP 65568) (PACK (GET_SIZE heap_ab (HDRP 65568)) 0) heap_ab;
           b = fst (coalesce 65568 s0); s' = snd (coalesce 65568 s0)
       in b = 65568 \<and> GET_ALLOC s' (HDRP b) = 0 \<and> GET_SIZE s' (HDRP b) = 128
          \<and> GET_SIZE s' (FTRP s' b) = 128 \<and> GET s' (FTRP s' b) = PACK 128 1
          \<and> free_list_is s' [65568, 65920])"
proof -
  have ok: "release_ok heap_ab [65920] 65568"
    by (simp add: release_ok_def tags_of_def tag_defs PREV_BLKP_def GET_ALLOC_mem heap_ab_obs
          free_list_is_def get_prev_def get_next_def aligned16_def)
  have pa: "GET_ALLOC heap_ab (HDRP (PREV_BLKP heap_ab 65568)) = 1"
    and na: "GET_ALLOC heap_ab (HDRP (NEXT_BLKP heap_ab 65568)) = 1"
    and S: "GET_SIZE heap_ab (HDRP 65568) = 128" and h: "GET heap_ab (HDRP 65568) = PACK 128 1"
    by (simp_all add: tag_defs PREV_BLKP_def GET_ALLOC_mem heap_ab_obs PACK_def)
  show ?thesis
    using mm_free_boundary_tags[OF ok] ok pa na S h by (clarsimp simp add: Let_def)
qed

section \<open>The layout of a page\<close>

lemma set_allocated_split:
  fixes s :: heap and bp n :: addr
  defines "S \<equiv> GET_SIZE s (HDRP bp)"
  defines "s' \<equiv> set_allocated bp n s"
  assumes F: "free_list_is s xs" and bm: "bp \<in> set xs"
    and an: "aligned16 n" and n16: "16 \<le> n" and nS: "n \<le> S"
    and nw: "unat bp + unat S < 2 ^ 64"
    and sep: "\<forall>x\<in>set xs. x \<noteq> bp \<longrightarrow> clear_of bp S x"
    and sp: "32 < S - n"
  shows "mem s' (bp - 8) = PACK n 1" and "mem s' (bp + n - 16) = PACK n 1"
    and "mem s' (bp + n - 8) = PACK (S - n) 0" and "mem s' (bp + S - 16) = PACK (S - n) 0"
    and "free_list_is s' ((bp + n) # remove1 bp xs)"
    and "\<And>a. a \<notin> {bp - 8, bp + n - 16, bp + n - 8, bp + n, bp + n + 8, bp + S - 16} \<Longrightarrow>
              (\<And>x. x \<in> set xs \<Longrightarrow> a \<noteq> x \<and> a \<noteq> x + 8) \<Longrightarrow> mem s' a = mem s a"
    and "mapped s' = mapped s" and "unmapped s' = unmapped s"
proof -
  let ?ys = "remove1 bp xs"
  let ?s1 = "removeFromFreeList bp s"
  from F have d: "dll s 0 (free_list s) xs" and dist: "distinct xs" and al: "list_all aligned16 xs"
    by (simp_all add: free_list_is_def)
  have aS: "aligned16 S" unfolding S_def by (rule GET_SIZE_aligned)
  have ab: "aligned16 bp" using al bm by (simp add: list_all_iff)
  have b0: "bp \<noteq> 0" using dll_nonzero[OF d] bm by auto
  have lo: "16 \<le> unat bp" by (rule aligned_ge16[OF ab b0])
  have ys: "\<And>x. x \<in> set ?ys \<Longrightarrow> x \<in> set xs \<and> x \<noteq> bp \<and> aligned16 x \<and> clear_of bp S x"
    using dist al sep by (auto simp add: list_all_iff)
  have tags: "\<And>x k. x \<in> set ?ys \<Longrightarrow> k \<le> S \<Longrightarrow> aligned16 k \<Longrightarrow>
      bp + k - 16 \<noteq> x \<and> bp + k - 16 \<noteq> x + 8 \<and> bp + k - 8 \<noteq> x \<and> bp + k - 8 \<noteq> x + 8"
    using tag_off_node[OF _ nw lo _ _ ab] ys by blast
  have F1: "free_list_is ?s1 ?ys" by (rule free_list_is_remove[OF F bm])
  have xs_ys: "\<And>x. x \<in> set xs \<Longrightarrow> x \<noteq> bp \<Longrightarrow> x \<in> set ?ys" using dist by auto
  have h: "mem ?s1 (bp - 8) = mem s (bp - 8)"
  proof (rule remove_frame[OF F bm])
    fix x assume "x \<in> set xs" "x \<noteq> bp"
    hence "x \<in> set ?ys" by (rule xs_ys)
    from tags[OF this, of 0] show "bp - 8 \<noteq> x \<and> bp - 8 \<noteq> x + 8" by simp
  qed
  have al32: "ALIGN (1 + OVERHEAD) = 32" by (simp add: macro_defs)
  have S8: "S \<noteq> 8" "n \<noteq> 8" using aS an by (auto dest: aligned16_neq8)
  let ?r = "bp + n"
  let ?s2 = "PUT (HDRP bp) (PACK S 1) ?s1"
  let ?s3 = "PUT (bp + S - 16) (PACK S 1) ?s2"
  let ?s4 = "PUT (HDRP bp) (PACK n 1) ?s3"
  let ?s5 = "PUT (bp + n - 16) (PACK n 1) ?s4"
  let ?s6 = "addToFreeList ?r ?s5"
  let ?s7 = "PUT (HDRP ?r) (PACK (S - n) 0) ?s6"
  let ?s8 = "PUT (bp + S - 16) (PACK (S - n) 0) ?s7"
  have aSn: "aligned16 (S - n)" using aS an by (rule aligned16_diff)
  have n0: "n \<noteq> 0" using n16 by auto
  have Sn: "S - n \<noteq> 0" "S - n \<noteq> 16" "S - n \<noteq> 8" "S - n \<noteq> 24"
    using sp aSn by (auto simp: aligned16_def)
  have un: "unat n \<le> unat S" using nS by (simp add: word_le_nat_alt)
  have uSn: "unat (S - n) = unat S - unat n" using nS by (simp add: unat_sub)
  have u32: "32 < unat S - unat n" using sp uSn by (simp add: word_less_nat_alt)
  have n16S: "n + 16 \<le> S"
  proof -
    have "unat (n + 16) = unat n + unat (16::64 word)"
      by (rule unat_plus) (use un u32 unat_lt64[of S] in simp)
    thus ?thesis using u32 by (simp add: word_le_nat_alt)
  qed
  have an16: "aligned16 (n + 16)" using an by (simp add: aligned16_add)
  have n16': "n + 16 \<noteq> 0"
  proof
    assume "n + 16 = 0"
    with n16S have "unat (n + 16) = 0" by simp
    moreover have "unat (n + 16) = unat n + unat (16::64 word)"
      by (rule unat_plus) (use un u32 unat_lt64[of S] in simp)
    ultimately show False by simp
  qed
  have ar: "aligned16 ?r" using ab an by (rule aligned16_add)
  have r0: "?r \<noteq> 0"
  proof -
    have "unat ?r = unat bp + unat n" by (rule unat_plus) (use nw un in simp)
    thus ?thesis using lo by (auto simp: unat_eq_zero[symmetric])
  qed
  have rys: "?r \<notin> set ?ys"
  proof
    assume "?r \<in> set ?ys"
    from tags[OF this n16S an16] show False by (simp add: algebra_simps)
  qed
  have t: "free_list ?s1 = 0 \<or> (free_list ?s1 \<in> set ?ys)" by (rule free_list_head[OF F1])
  have r1: "GET_SIZE ?s1 (HDRP bp) = S" using h by (simp add: tag_defs S_def)
  have r2a: "GET_SIZE ?s2 (HDRP bp) = S" using aS by (simp add: tag_defs mem_PUT size_of_PACK)
  have r2b: "FTRP ?s2 bp = bp + S - 16" using r2a by (simp add: FTRP_def OVERHEAD_def sizeof_block_header_def sizeof_block_footer_def)
  have r4: "FTRP ?s4 bp = bp + n - 16" using an by (simp add: tag_defs mem_PUT size_of_PACK)
  have r5: "NEXT_BLKP ?s5 bp = ?r" using an S8 by (simp add: tag_defs mem_PUT size_of_PACK)
  have m5: "mem ?s5 (bp - 8) = PACK n 1" using S8 by (simp add: tag_defs mem_PUT)
  have fl5: "free_list ?s5 = free_list ?s1" by simp
  have m6: "mem ?s6 (bp - 8) = PACK n 1"
  proof -
    have "mem ?s6 (bp - 8) = mem ?s5 (bp - 8)"
    proof (rule add_frame)
      show "bp - 8 \<noteq> ?r" using al_plus8[of "bp - 16" ?r] ab ar by (simp add: aligned16_diff)
      show "bp - 8 \<noteq> ?r + 8" using n16' by (simp add: algebra_simps)
      show "free_list ?s5 = 0 \<or> bp - 8 \<noteq> free_list ?s5 + 8"
        using t tags[of "free_list ?s1" 0] by (auto simp add: fl5)
    qed
    thus ?thesis using m5 by simp
  qed
  have r6: "NEXT_BLKP ?s6 bp = ?r" using m6 an by (simp add: tag_defs size_of_PACK)
  have m7: "mem ?s7 (bp - 8) = PACK n 1" using m6 n0 by (simp add: tag_defs mem_PUT)
  have r7a: "NEXT_BLKP ?s7 bp = ?r" using m7 an by (simp add: tag_defs size_of_PACK)
  have r7b: "FTRP ?s7 ?r = bp + S - 16" using aSn by (simp add: tag_defs mem_PUT size_of_PACK)
  have sp': "ALIGN (1 + OVERHEAD) < S - n" using sp al32 by simp
  have eq: "s' = ?s8"
  proof -
    note rs = r1 r2a r2b r4 r5 r6 r7a r7b sp'
    show ?thesis
      unfolding s'_def S_def set_allocated_def Let_def
      by (simp only: rs[unfolded S_def] if_True)
  qed
  show "mem s' (bp - 8) = PACK n 1" using m7 S8 by (simp add: eq mem_PUT)
  have m5f: "mem ?s5 (bp + n - 16) = PACK n 1" by (simp add: mem_PUT)
  have m6f: "mem ?s6 (bp + n - 16) = PACK n 1"
  proof -
    have "mem ?s6 (bp + n - 16) = mem ?s5 (bp + n - 16)"
    proof (rule add_frame)
      show "bp + n - 16 \<noteq> ?r" by simp
      show "bp + n - 16 \<noteq> ?r + 8" by simp
      show "free_list ?s5 = 0 \<or> bp + n - 16 \<noteq> free_list ?s5 + 8"
        using t tags[of "free_list ?s1" n] nS an by (auto simp add: fl5)
    qed
    thus ?thesis using m5f by simp
  qed
  show "mem s' (bp + n - 16) = PACK n 1"
    using m6f Sn by (simp add: eq mem_PUT tag_defs)
  show "mem s' (bp + n - 8) = PACK (S - n) 0" using Sn by (simp add: eq mem_PUT tag_defs)
  show "mem s' (bp + S - 16) = PACK (S - n) 0" by (simp add: eq mem_PUT)
  have F5: "free_list_is ?s5 ?ys"
  proof -
    have "free_list_is ?s5 ?ys = free_list_is ?s4 ?ys"
      by (rule free_list_is_PUT) (use tags[of _ n] nS an in auto)
    also have "\<dots> = free_list_is ?s3 ?ys"
      unfolding HDRP_def sizeof_block_header_def
      by (rule free_list_is_PUT) (use tags[of _ 0] in auto)
    also have "\<dots> = free_list_is ?s2 ?ys"
      by (rule free_list_is_PUT) (use tags[of _ S] aS in auto)
    also have "\<dots> = free_list_is ?s1 ?ys"
      unfolding HDRP_def sizeof_block_header_def
      by (rule free_list_is_PUT) (use tags[of _ 0] in auto)
    finally show ?thesis using F1 by simp
  qed
  have F6: "free_list_is ?s6 (?r # ?ys)" by (rule free_list_is_add[OF F5 rys r0 ar])
  have F8: "free_list_is ?s8 (?r # ?ys)"
  proof -
    have "free_list_is ?s8 (?r # ?ys) = free_list_is ?s7 (?r # ?ys)"
    proof (rule free_list_is_PUT)
      fix x assume "x \<in> set (?r # ?ys)"
      moreover have "bp + S - 16 \<noteq> ?r \<and> bp + S - 16 \<noteq> ?r + 8"
        using Sn by (simp add: algebra_simps)
      ultimately show "bp + S - 16 \<noteq> x \<and> bp + S - 16 \<noteq> x + 8"
        using tags[of x S] aS by auto
    qed
    also have "\<dots> = free_list_is ?s6 (?r # ?ys)"
      unfolding HDRP_def sizeof_block_header_def
    proof (rule free_list_is_PUT)
      fix x assume "x \<in> set (?r # ?ys)"
      moreover have "bp + n - 8 \<noteq> ?r \<and> bp + n - 8 \<noteq> ?r + 8" by simp
      ultimately show "bp + n - 8 \<noteq> x \<and> bp + n - 8 \<noteq> x + 8"
        using tags[of x n] nS an by auto
    qed
    finally show ?thesis using F6 by simp
  qed
  show "free_list_is s' ((bp + n) # remove1 bp xs)" using F8 by (simp add: eq)
  show "mapped s' = mapped s" by (simp add: eq)
  show "unmapped s' = unmapped s" by (simp add: eq)
  fix a
  assume a: "a \<notin> {bp - 8, bp + n - 16, bp + n - 8, bp + n, bp + n + 8, bp + S - 16}"
    and nodes: "\<And>x. x \<in> set xs \<Longrightarrow> a \<noteq> x \<and> a \<noteq> x + 8"
  have a': "a \<noteq> bp - 8" "a \<noteq> bp + n - 16" "a \<noteq> bp + n - 8" "a \<noteq> ?r" "a \<noteq> ?r + 8"
    "a \<noteq> bp + S - 16" using a by simp_all
  have t': "free_list ?s1 = 0 \<or> a \<noteq> free_list ?s1 + 8"
  proof (cases "free_list ?s1 = 0")
    case False
    with t have "free_list ?s1 \<in> set xs" using ys by blast
    from nodes[OF this] show ?thesis by simp
  qed simp
  have 1: "mem s' a = mem ?s6 a" using a'(3,6) by (simp add: eq mem_PUT HDRP_def sizeof_block_header_def)
  have 2: "mem ?s6 a = mem ?s5 a"
  proof (rule add_frame)
    show "a \<noteq> ?r" "a \<noteq> ?r + 8" using a' by simp_all
    show "free_list ?s5 = 0 \<or> a \<noteq> free_list ?s5 + 8" using t' by (simp only: fl5)
  qed
  have 3: "mem ?s5 a = mem ?s1 a" using a'(1,2,6) by (simp add: mem_PUT HDRP_def sizeof_block_header_def)
  have 4: "mem ?s1 a = mem s a"
  proof (rule remove_frame[OF F bm])
    fix x assume "x \<in> set xs" "x \<noteq> bp"
    thus "a \<noteq> x \<and> a \<noteq> x + 8" using nodes by simp
  qed
  show "mem s' a = mem s a" using 1 2 3 4 by simp
qed

lemma createProlog_eq: "createProlog bp s = (bp, set_allocated bp 16 s)"
  by (simp add: createProlog_def macro_defs Let_def)

lemma outside_neq:
  assumes o: "outside_page base chunk x" and nw: "unat base + unat chunk < 2 ^ 64"
    and ax: "aligned16 x" and k: "unat k < unat chunk"
  shows "base + k \<noteq> x" and "base + k \<noteq> x + 8"
proof -
  have u: "unat (base + k) = unat base + unat k" by (rule unat_plus) (use nw k in simp)
  have "unat x mod 16 = 0" using ax by (simp add: aligned16_unat)
  moreover have "unat x < 18446744073709551616" using unat_lt64[of x] by simp
  ultimately have "unat x + 8 < 18446744073709551616" by presburger
  hence x8: "unat (x + 8) = unat x + 8" using unat_plus[of x 8] by simp
  show "base + k \<noteq> x" using o u k by (auto simp: outside_page_def)
  show "base + k \<noteq> x + 8" using o u k x8 by (auto simp: outside_page_def)
qed

lemma outside_clear:
  assumes o: "outside_page base chunk x" and nw: "unat base + unat chunk < 2 ^ 64"
    and k: "16 \<le> unat k" "unat k \<le> unat chunk"
  shows "clear_of (base + k) (chunk - k) x"
proof -
  have u: "unat (base + k) = unat base + unat k" by (rule unat_plus) (use nw k in simp)
  have "k \<le> chunk" using k by (simp add: word_le_nat_alt)
  hence v: "unat (chunk - k) = unat chunk - unat k" by (simp add: unat_sub)
  show ?thesis using o u v k by (auto simp: outside_page_def clear_of_def)
qed

lemma chunk_facts:
  assumes big: "80 \<le> unat (chunk::64 word)"
  shows "16 \<le> chunk - 16" and "32 < chunk - 16 - 16" and "unat (chunk - 16) = unat chunk - 16"
    and "unat (chunk - 32) = unat chunk - 32" and "unat (chunk - 8) = unat chunk - 8"
proof -
  have 1: "(16::64 word) \<le> chunk" "(32::64 word) \<le> chunk" "(8::64 word) \<le> chunk"
    using big by (simp_all add: word_le_nat_alt)
  show a: "unat (chunk - 16) = unat chunk - 16" using 1 by (simp add: unat_sub)
  show b: "unat (chunk - 32) = unat chunk - 32" using 1 by (simp add: unat_sub)
  show "unat (chunk - 8) = unat chunk - 8" using 1 by (simp add: unat_sub)
  show "16 \<le> chunk - 16" using a big by (simp add: word_le_nat_alt)
  have "chunk - 16 - 16 = chunk - 32" by simp
  thus "32 < chunk - 16 - 16" using b big by (simp add: word_less_nat_alt)
qed

lemma lay_page:
  fixes t :: heap and base chunk :: addr
  defines "s' \<equiv> set_allocated (base + 16) 16 t"
  assumes F: "free_list_is t ((base + 16) # xs)"
    and S: "GET_SIZE t (base + 8) = chunk - 16"
    and ab: "aligned16 base" and ac: "aligned16 chunk"
    and big: "80 \<le> unat chunk"
    and nw: "unat base + unat chunk < 2 ^ 64"
    and out: "\<forall>x\<in>set xs. outside_page base chunk x"
  shows "mem s' (base + 8) = PACK 16 1" and "mem s' (base + 16) = PACK 16 1"
    and "mem s' (base + 24) = PACK (chunk - 32) 0"
    and "mem s' (base + chunk - 16) = PACK (chunk - 32) 0"
    and "free_list_is s' ((base + 32) # xs)"
    and "mem s' (base + chunk - 8) = mem t (base + chunk - 8)"
    and "mapped s' = mapped t" and "unmapped s' = unmapped t"
proof -
  let ?bp = "base + 16"
  note cf = chunk_facts[OF big]
  have S': "GET_SIZE t (HDRP ?bp) = chunk - 16" using S by (simp add: HDRP_def sizeof_block_header_def algebra_simps)
  from F have dist: "distinct (?bp # xs)" and al: "list_all aligned16 xs"
    by (simp_all add: free_list_is_def)
  have ax: "\<And>x. x \<in> set xs \<Longrightarrow> aligned16 x" using al by (simp add: list_all_iff)
  have u16: "unat ?bp = unat base + 16" using unat_plus[of base 16] nw big by simp
  have nS: "16 \<le> GET_SIZE t (HDRP ?bp)" using cf(1) by (simp add: S')
  have nw': "unat ?bp + unat (GET_SIZE t (HDRP ?bp)) < 2 ^ 64"
    using nw big by (simp add: S' u16 cf(3))
  have sep: "\<forall>x\<in>set (?bp # xs). x \<noteq> ?bp \<longrightarrow> clear_of ?bp (GET_SIZE t (HDRP ?bp)) x"
  proof (intro ballI impI)
    fix x assume "x \<in> set (?bp # xs)" "x \<noteq> ?bp"
    hence "outside_page base chunk x" using out by auto
    from outside_clear[OF this nw, of 16] big show "clear_of ?bp (GET_SIZE t (HDRP ?bp)) x"
      by (simp add: S')
  qed
  have sp: "32 < GET_SIZE t (HDRP ?bp) - 16" using cf(2) by (simp add: S')
  have bm: "?bp \<in> set (?bp # xs)" by simp
  have an: "aligned16 (16::addr)" by simp
  have n16: "(16::addr) \<le> 16" by simp
  note sa = set_allocated_split[OF F bm an n16 nS nw' sep sp, folded s'_def, unfolded S']
  have r: "remove1 ?bp (?bp # xs) = xs" by simp
  show "mem s' (base + 8) = PACK 16 1" using sa(1) by (simp add: algebra_simps)
  show "mem s' (base + 16) = PACK 16 1" using sa(2) by (simp add: algebra_simps)
  show "mem s' (base + 24) = PACK (chunk - 32) 0" using sa(3) by (simp add: algebra_simps)
  show "mem s' (base + chunk - 16) = PACK (chunk - 32) 0" using sa(4) by (simp add: algebra_simps)
  show "free_list_is s' ((base + 32) # xs)" using sa(5) by (simp add: algebra_simps)
  show "mapped s' = mapped t" using sa(7) by simp
  show "unmapped s' = unmapped t" using sa(8) by simp
  have c: "chunk \<noteq> 16" "chunk \<noteq> 24" "chunk \<noteq> 32" "chunk \<noteq> 40" "chunk \<noteq> 48" using big by auto
  show "mem s' (base + chunk - 8) = mem t (base + chunk - 8)"
  proof (rule sa(6))
    show "base + chunk - 8 \<notin> {?bp - 8, ?bp + 16 - 16, ?bp + 16 - 8, ?bp + 16, ?bp + 16 + 8, ?bp + (chunk - 16) - 16}"
      using c by simp
  next
    fix x assume x: "x \<in> set (?bp # xs)"
    show "base + chunk - 8 \<noteq> x \<and> base + chunk - 8 \<noteq> x + 8"
    proof (cases "x = ?bp")
      case True
      thus ?thesis using c by (simp add: algebra_simps)
    next
      case False
      hence xs: "x \<in> set xs" using x by simp
      have "unat (chunk - 8) < unat chunk" using cf(5) big by simp
      from outside_neq[OF _ nw ax[OF xs] this] out xs show ?thesis
        by (simp add: algebra_simps)
    qed
  qed
qed

lemma bit8: "bit (8::64 word) n \<longleftrightarrow> n = 3"
  using bit_exp_iff[where 'a = "64 word", of 3 n] by auto

lemma aligned16_and8: assumes ad: "aligned16 d" shows "d AND 8 = 0"
proof -
  have d3: "\<not> bit d 3" using aligned16_bits[OF ad, of 3] by simp
  show ?thesis
    by (rule bit_word_eqI) (simp only: bit_and_iff bit8, use d3 in auto)
qed

lemma aligned16_or8: assumes ad: "aligned16 d" shows "(d OR 8) AND NOT (mask 4) = d"
proof (rule bit_word_eqI)
  fix n assume "n < LENGTH(64)"
  have d3: "\<not> bit d 3" using aligned16_bits[OF ad, of 3] by simp
  have lo: "bit d n \<Longrightarrow> \<not> n < 4" using aligned16_bits[OF ad] by blast
  show "bit ((d OR 8) AND NOT (mask 4)) n = bit d n"
    using d3 lo \<open>n < LENGTH(64)\<close> by (simp only: bit_and_iff bit_or_iff bit8 bit_not_iff bit_mask_iff) auto
qed

lemma aligned16_plus8_m16: assumes ad: "aligned16 d" shows "(d + 8) AND - 16 = d"
proof -
  have "d + 8 = d OR 8" using aligned16_and8[OF ad] by (rule disjunctive_add_eq_or)
  moreover have "NOT (mask 4) = (- 16 :: 64 word)" by (simp add: mask_eq_exp_minus_1)
  ultimately show ?thesis using aligned16_or8[OF ad] by (simp only:)
qed

lemma aligned16_minus8:
  assumes "aligned16 c" shows "(c - 8) AND - 16 = c - 16"
proof -
  have "aligned16 (c - 16)" using assms by (simp add: aligned16_diff)
  from aligned16_plus8_m16[OF this] show ?thesis by simp
qed

lemma free_list_is_mapped [simp]: "free_list_is (s\<lparr>mapped := m\<rparr>) xs = free_list_is s xs"
proof -
  have "dll (s\<lparr>mapped := m\<rparr>) 0 (free_list s) xs = dll s 0 (free_list s) xs"
    by (rule dll_frame) simp
  thus ?thesis by (simp add: free_list_is_def)
qed

lemma extend_page:
  assumes ch: "chunk = PAGE_ALIGN ps (n + PAGE_OVERHEAD + 80000)"
    and F: "free_list_is s xs"
    and ab: "aligned16 base" and ac: "aligned16 chunk"
    and big: "80 \<le> unat chunk"
    and nw: "unat base + unat chunk < 2 ^ 64"
    and out: "\<forall>x\<in>set xs. outside_page base chunk x"
  shows "fst (extend ps base n s) = base + 32"
    and "mapped (snd (extend ps base n s)) = (base, chunk) # mapped s"
    and "unmapped (snd (extend ps base n s)) = unmapped s"
    and "page_at (snd (extend ps base n s)) base chunk"
    and "GET (snd (extend ps base n s)) (base + 24) = PACK (chunk - 32) 0"
    and "GET (snd (extend ps base n s)) (base + chunk - 16) = PACK (chunk - 32) 0"
    and "free_list_is (snd (extend ps base n s)) ((base + 32) # xs)"
proof -
  let ?bp = "base + 16"
  let ?s1 = "s\<lparr>mapped := (base, chunk) # mapped s\<rparr>"
  let ?s2 = "PUT (base + 8) (PACK (chunk - 8) 0) ?s1"
  let ?s3 = "PUT (base + chunk - 16) (PACK (chunk - 8) 0) ?s2"
  let ?s4 = "PUT (base + chunk - 8) (PACK 0 1) ?s3"
  let ?s5 = "addToFreeList ?bp ?s4"
  let ?s6 = "set_allocated ?bp 16 ?s5"
  note cf = chunk_facts[OF big]
  from F have al: "list_all aligned16 xs" by (simp add: free_list_is_def)
  have ax: "\<And>x. x \<in> set xs \<Longrightarrow> aligned16 x" using al by (simp add: list_all_iff)
  have c: "chunk \<noteq> 16" "chunk \<noteq> 24" "chunk \<noteq> 32" "chunk \<noteq> 40" "chunk \<noteq> 48" using big by auto
  have off: "\<And>x k. x \<in> set xs \<Longrightarrow> unat k < unat chunk \<Longrightarrow> base + k \<noteq> x \<and> base + k \<noteq> x + 8"
    using outside_neq[OF _ nw ax] out by blast
  have k8: "unat (8::64 word) < unat chunk" "unat (16::64 word) < unat chunk"
    "unat (24::64 word) < unat chunk" "unat (chunk - 16) < unat chunk" "unat (chunk - 8) < unat chunk"
    using big cf by simp_all
  have hb: "HDRTOPAY (HDRTOPAY base) = ?bp" by (simp add: HDRTOPAY_def sizeof_block_header_def)
  have hh: "HDRP ?bp = base + 8" by (simp add: HDRP_def sizeof_block_header_def)
  have m2: "GET_SIZE ?s2 (base + 8) = chunk - 16"
    using ac by (simp add: GET_SIZE_def GET_def mem_PUT PACK0 aligned16_minus8)
  have r2: "FTRP ?s2 ?bp = base + chunk - 16"
    by (simp add: FTRP_def hh m2 OVERHEAD_def sizeof_block_header_def sizeof_block_footer_def)
  have m3: "GET_SIZE ?s3 (base + 8) = chunk - 16"
    using ac c by (simp add: GET_SIZE_def GET_def mem_PUT PACK0 aligned16_minus8)
  have r3: "HDRP (NEXT_BLKP ?s3 ?bp) = base + chunk - 8"
    by (simp add: NEXT_BLKP_def hh m3) (simp add: HDRP_def sizeof_block_header_def)
  \<comment> \<open>the free list with the new block\<close>
  have F4: "free_list_is ?s4 xs"
  proof -
    have "free_list_is ?s4 xs = free_list_is ?s3 xs"
      by (rule free_list_is_PUT) (use off[OF _ k8(5)] in \<open>simp add: algebra_simps\<close>)
    also have "\<dots> = free_list_is ?s2 xs"
      by (rule free_list_is_PUT) (use off[OF _ k8(4)] in \<open>simp add: algebra_simps\<close>)
    also have "\<dots> = free_list_is ?s1 xs"
      by (rule free_list_is_PUT) (use off[OF _ k8(1)] in simp)
    finally show ?thesis using F by simp
  qed
  have bn: "?bp \<notin> set xs" using off[OF _ k8(2)] by auto
  have u16: "unat ?bp = unat base + 16" using unat_plus[of base 16] nw big by simp
  have b0: "?bp \<noteq> 0" using u16 by (auto simp: unat_eq_zero[symmetric])
  have abp: "aligned16 ?bp" using ab by (simp add: aligned16_add)
  have F5: "free_list_is ?s5 (?bp # xs)" by (rule free_list_is_add[OF F4 bn b0 abp])
  have t: "free_list ?s4 = 0 \<or> free_list ?s4 \<in> set xs" by (rule free_list_head[OF F4])
  have h5: "mem ?s5 (base + 8) = mem ?s4 (base + 8)"
  proof (rule add_frame)
    show "base + 8 \<noteq> ?bp" "base + 8 \<noteq> ?bp + 8" by simp_all
    show "free_list ?s4 = 0 \<or> base + 8 \<noteq> free_list ?s4 + 8" using t off[OF _ k8(1)] by auto
  qed
  have S5: "GET_SIZE ?s5 (base + 8) = chunk - 16"
    using m3 c by (simp add: GET_SIZE_def GET_def h5 mem_PUT)
  have t5: "mem ?s5 (base + chunk - 8) = mem ?s4 (base + chunk - 8)"
  proof (rule add_frame)
    show "base + chunk - 8 \<noteq> ?bp" "base + chunk - 8 \<noteq> ?bp + 8" using c by (simp_all add: algebra_simps)
    show "free_list ?s4 = 0 \<or> base + chunk - 8 \<noteq> free_list ?s4 + 8"
      using t off[OF _ k8(5)] by (auto simp add: algebra_simps)
  qed
  note lp = lay_page[OF F5 S5 ab ac big nw out]
  have r6: "NEXT_BLKP ?s6 ?bp = base + 32"
    using lp(1) by (simp add: NEXT_BLKP_def hh GET_SIZE_def GET_def size_of_PACK)
  have eq: "extend ps base n s = (base + 32, ?s6)"
    unfolding extend_def Let_def mem_map_def prod.case createProlog_eq hb
    by (simp only: ch[symmetric] hh sizeof_block_footer_def r2 r3 r6)
  show "fst (extend ps base n s) = base + 32" by (simp add: eq)
  show "mapped (snd (extend ps base n s)) = (base, chunk) # mapped s" by (simp add: eq lp(7))
  show "unmapped (snd (extend ps base n s)) = unmapped s" by (simp add: eq lp(8))
  show "page_at (snd (extend ps base n s)) base chunk"
    using lp(1,2,6) t5 by (simp add: eq page_at_def lp(7) GET_def mem_PUT)
  show "GET (snd (extend ps base n s)) (base + 24) = PACK (chunk - 32) 0" using lp(3) by (simp add: eq GET_def)
  show "GET (snd (extend ps base n s)) (base + chunk - 16) = PACK (chunk - 32) 0"
    using lp(4) by (simp add: eq GET_def)
  show "free_list_is (snd (extend ps base n s)) ((base + 32) # xs)" using lp(5) by (simp add: eq)
qed

lemma unmapped_set_allocated [simp]: "unmapped (set_allocated b n s) = unmapped s"
  by (simp add: set_allocated_def Let_def)

lemma mm_init_page:
  assumes ch: "chunk = PAGE_ALIGN ps (PAGE_OVERHEAD + 20000)"
    and ab: "aligned16 base" and ac: "aligned16 chunk"
    and big: "80 \<le> unat chunk"
    and nw: "unat base + unat chunk < 2 ^ 64"
  shows "fst (mm_init ps base s) = 0"
    and "mapped (snd (mm_init ps base s)) = (base, chunk) # mapped s"
    and "unmapped (snd (mm_init ps base s)) = unmapped s"
    and "page_at (snd (mm_init ps base s)) base chunk"
    and "GET (snd (mm_init ps base s)) (base + 24) = PACK (chunk - 32) 0"
    and "GET (snd (mm_init ps base s)) (base + chunk - 16) = PACK (chunk - 32) 0"
    and "free_list_is (snd (mm_init ps base s)) [base + 32]"
proof -
  let ?bp = "base + 16"
  let ?s1 = "s\<lparr>mapped := (base, chunk) # mapped s\<rparr>"
  let ?s2 = "PUT (base + 8) (PACK (chunk - 8) 0) ?s1"
  let ?s3 = "PUT (base + chunk - 16) (PACK (chunk - 8) 0) ?s2"
  let ?s4 = "PUT (base + chunk - 8) (PACK 0 1) ?s3"
  let ?s5 = "?s4\<lparr>free_list := ?bp\<rparr>"
  let ?s6 = "set_prev (free_list ?s5) 0 ?s5"
  let ?s7 = "set_next (free_list ?s6) 0 ?s6"
  let ?s8 = "set_allocated ?bp 16 ?s7"
  note cf = chunk_facts[OF big]
  have c: "chunk \<noteq> 16" "chunk \<noteq> 24" "chunk \<noteq> 32" "chunk \<noteq> 40" "chunk \<noteq> 48" using big by auto
  have hb: "HDRTOPAY (HDRTOPAY base) = ?bp" by (simp add: HDRTOPAY_def sizeof_block_header_def)
  have hh: "HDRP ?bp = base + 8" by (simp add: HDRP_def sizeof_block_header_def)
  have m2: "GET_SIZE ?s2 (base + 8) = chunk - 16"
    using ac by (simp add: GET_SIZE_def GET_def mem_PUT PACK0 aligned16_minus8)
  have r2: "FTRP ?s2 ?bp = base + chunk - 16"
    by (simp add: FTRP_def hh m2 OVERHEAD_def sizeof_block_header_def sizeof_block_footer_def)
  have m3: "GET_SIZE ?s3 (base + 8) = chunk - 16"
    using ac c by (simp add: GET_SIZE_def GET_def mem_PUT PACK0 aligned16_minus8)
  have r3: "HDRP (NEXT_BLKP ?s3 ?bp) = base + chunk - 8"
    by (simp add: NEXT_BLKP_def hh m3) (simp add: HDRP_def sizeof_block_header_def)
  have u16: "unat ?bp = unat base + 16" using unat_plus[of base 16] nw big by simp
  have b0: "?bp \<noteq> 0" using u16 by (auto simp: unat_eq_zero[symmetric])
  have abp: "aligned16 ?bp" using ab by (simp add: aligned16_add)
  have F7: "free_list_is ?s7 [?bp]"
    using b0 abp by (simp add: free_list_is_def get_next_def get_prev_def set_prev_def set_next_def)
  have S7: "GET_SIZE ?s7 (base + 8) = chunk - 16"
    using m3 c by (simp add: GET_SIZE_def GET_def set_prev_def set_next_def mem_PUT)
  have t7: "mem ?s7 (base + chunk - 8) = PACK 0 1"
    using c by (simp add: set_prev_def set_next_def mem_PUT algebra_simps)
  have out: "\<forall>x\<in>set []. outside_page base chunk x" by simp
  note lp = lay_page[OF F7 S7 ab ac big nw out]
  have eq: "mm_init ps base s = (0, ?s8)"
    unfolding mm_init_def Let_def mem_map_def prod.case createProlog_eq hb
    by (simp only: ch[symmetric] hh sizeof_block_footer_def r2 r3)
  have mp: "mapped ?s7 = (base, chunk) # mapped s" "unmapped ?s7 = unmapped s"
    by (simp_all add: set_prev_def set_next_def)
  show "fst (mm_init ps base s) = 0" by (simp add: eq)
  show "mapped (snd (mm_init ps base s)) = (base, chunk) # mapped s" by (simp add: eq set_prev_def set_next_def)
  show "unmapped (snd (mm_init ps base s)) = unmapped s" by (simp add: eq set_prev_def set_next_def)
  show "page_at (snd (mm_init ps base s)) base chunk"
    using lp(1,2,6) t7 by (simp add: eq page_at_def lp(7) GET_def) (simp add: set_prev_def set_next_def)
  show "GET (snd (mm_init ps base s)) (base + 24) = PACK (chunk - 32) 0" using lp(3) by (simp add: eq GET_def)
  show "GET (snd (mm_init ps base s)) (base + chunk - 16) = PACK (chunk - 32) 0"
    using lp(4) by (simp add: eq GET_def)
  show "free_list_is (snd (mm_init ps base s)) [base + 32]" using lp(5) by (simp add: eq)
qed

section \<open>Returning an empty page\<close>

lemma release_frame:
  fixes s :: heap and p :: addr
  defines "s0 \<equiv> PUT (HDRP p) (PACK (GET_SIZE s (HDRP p)) 0) s"
  assumes ok: "release_ok s xs p"
    and a1: "a \<noteq> HDRP p"
    and a2: "GET_ALLOC s (HDRP (PREV_BLKP s p)) \<noteq> 0 \<Longrightarrow> a \<noteq> p \<and> a \<noteq> p + 8"
    and a3: "GET_ALLOC s (HDRP (PREV_BLKP s p)) = 0 \<Longrightarrow> a \<noteq> HDRP (PREV_BLKP s p)"
    and a4: "a \<noteq> (if GET_ALLOC s (HDRP (NEXT_BLKP s p)) = 0 then FTRP s (NEXT_BLKP s p) else FTRP s p)"
    and n: "\<And>x. x \<in> set xs \<Longrightarrow> a \<noteq> x \<and> a \<noteq> x + 8"
  shows "mem (snd (coalesce p s0)) a = mem s a"
proof -
  let ?q = "PREV_BLKP s p" and ?nb = "NEXT_BLKP s p"
  note rd = release_reads[OF ok, folded s0_def]
  have F0: "free_list_is s0 xs" by (rule rd(8))
  have m0: "mem s0 a = mem s a" using a1 by (simp add: s0_def mem_PUT)
  have fl0: "free_list s0 = 0 \<or> a \<noteq> free_list s0 + 8"
    using free_list_head[OF F0] n by auto
  consider (none) "GET_ALLOC s (HDRP ?q) \<noteq> 0" "GET_ALLOC s (HDRP ?nb) \<noteq> 0"
    | (nxt) "GET_ALLOC s (HDRP ?q) \<noteq> 0" "GET_ALLOC s (HDRP ?nb) = 0"
    | (prv) "GET_ALLOC s (HDRP ?q) = 0" "GET_ALLOC s (HDRP ?nb) \<noteq> 0"
    | (both) "GET_ALLOC s (HDRP ?q) = 0" "GET_ALLOC s (HDRP ?nb) = 0" by blast
  thus ?thesis
  proof cases
    case none
    note c = release_case_none[OF ok none, folded s0_def]
    have "mem (addToFreeList p s0) a = mem s0 a"
      by (rule add_frame) (use a2[OF none(1)] fl0 in auto)
    thus ?thesis using m0 by (simp add: c(1))
  next
    case nxt
    note c = release_case_next[OF ok nxt, folded s0_def]
    note szs = release_ok_sizes[OF ok nxt(2)]
    let ?s1 = "removeFromFreeList ?nb s0"
    have F1: "free_list_is ?s1 (remove1 ?nb xs)" by (rule free_list_is_remove[OF F0 szs(1)])
    have sub: "\<And>x. x \<in> set (remove1 ?nb xs) \<Longrightarrow> x \<in> set xs" using notin_set_remove1 by fastforce
    have fl1: "free_list ?s1 = 0 \<or> a \<noteq> free_list ?s1 + 8"
      using free_list_head[OF F1] n sub by auto
    have m1: "mem ?s1 a = mem s0 a" by (rule remove_frame[OF F0 szs(1)]) (use n in auto)
    have ft: "a \<noteq> FTRP s ?nb" using a4 nxt(2) by simp
    show ?thesis
      unfolding c(6)
      by (subst add_frame) (use a2[OF nxt(1)] fl1 ft a1 m1 m0 in \<open>auto simp add: mem_PUT\<close>)
  next
    case prv
    note c = release_case_prev[OF ok prv, folded s0_def]
    have ft: "a \<noteq> FTRP s p" using a4 prv(2) by simp
    show ?thesis unfolding c(6) using a3[OF prv(1)] ft m0 by (simp add: mem_PUT)
  next
    case both
    note c = release_case_both[OF ok both, folded s0_def]
    note szs = release_ok_sizes[OF ok both(2)]
    let ?s1 = "removeFromFreeList ?nb s0"
    have m1: "mem ?s1 a = mem s0 a" by (rule remove_frame[OF F0 szs(1)]) (use n in auto)
    have ft: "a \<noteq> FTRP s ?nb" using a4 both(2) by simp
    show ?thesis unfolding c(6) using a3[OF both(1)] ft m1 m0 by (simp add: mem_PUT)
  qed
qed

lemma release_result:
  fixes s :: heap and p :: addr
  defines "s0 \<equiv> PUT (HDRP p) (PACK (GET_SIZE s (HDRP p)) 0) s"
  assumes ok: "release_ok s xs p"
  shows "fst (coalesce p s0) = (if GET_ALLOC s (HDRP (PREV_BLKP s p)) = 0 then PREV_BLKP s p else p)"
    and "GET (snd (coalesce p s0)) (HDRP (fst (coalesce p s0))) =
           PACK (GET_SIZE s (HDRP p)
                 + ((if GET_ALLOC s (HDRP (PREV_BLKP s p)) = 0 then GET_SIZE s (HDRP (PREV_BLKP s p)) else 0)
                    + (if GET_ALLOC s (HDRP (NEXT_BLKP s p)) = 0 then GET_SIZE s (HDRP (NEXT_BLKP s p)) else 0))) 0"
    and "free_list_is (snd (coalesce p s0))
           ((if GET_ALLOC s (HDRP (PREV_BLKP s p)) \<noteq> 0 then [p] else [])
            @ (if GET_ALLOC s (HDRP (NEXT_BLKP s p)) = 0 then remove1 (NEXT_BLKP s p) xs else xs))"
proof -
  let ?q = "PREV_BLKP s p" and ?nb = "NEXT_BLKP s p"
  consider (none) "GET_ALLOC s (HDRP ?q) \<noteq> 0" "GET_ALLOC s (HDRP ?nb) \<noteq> 0"
    | (nxt) "GET_ALLOC s (HDRP ?q) \<noteq> 0" "GET_ALLOC s (HDRP ?nb) = 0"
    | (prv) "GET_ALLOC s (HDRP ?q) = 0" "GET_ALLOC s (HDRP ?nb) \<noteq> 0"
    | (both) "GET_ALLOC s (HDRP ?q) = 0" "GET_ALLOC s (HDRP ?nb) = 0" by blast
  hence r: "fst (coalesce p s0) = (if GET_ALLOC s (HDRP ?q) = 0 then ?q else p)
    \<and> GET (snd (coalesce p s0)) (HDRP (fst (coalesce p s0))) =
           PACK (GET_SIZE s (HDRP p)
                 + ((if GET_ALLOC s (HDRP ?q) = 0 then GET_SIZE s (HDRP ?q) else 0)
                    + (if GET_ALLOC s (HDRP ?nb) = 0 then GET_SIZE s (HDRP ?nb) else 0))) 0
    \<and> free_list_is (snd (coalesce p s0))
           ((if GET_ALLOC s (HDRP ?q) \<noteq> 0 then [p] else [])
            @ (if GET_ALLOC s (HDRP ?nb) = 0 then remove1 ?nb xs else xs))"
  proof cases
    case none
    note c = release_case_none[OF ok none, folded s0_def]
    show ?thesis using none c(2,5) by (simp add: c(1))
  next
    case nxt
    note c = release_case_next[OF ok nxt, folded s0_def]
    show ?thesis using nxt c(2,5) by (simp add: c(1))
  next
    case prv
    note c = release_case_prev[OF ok prv, folded s0_def]
    show ?thesis using prv c(2,5) by (simp add: c(1))
  next
    case both
    note c = release_case_both[OF ok both, folded s0_def]
    show ?thesis using both c(2,5) by (simp add: c(1))
  qed
  show "fst (coalesce p s0) = (if GET_ALLOC s (HDRP ?q) = 0 then ?q else p)"
    by (rule r[THEN conjunct1])
  show "GET (snd (coalesce p s0)) (HDRP (fst (coalesce p s0))) =
           PACK (GET_SIZE s (HDRP p)
                 + ((if GET_ALLOC s (HDRP ?q) = 0 then GET_SIZE s (HDRP ?q) else 0)
                    + (if GET_ALLOC s (HDRP ?nb) = 0 then GET_SIZE s (HDRP ?nb) else 0))) 0"
    by (rule r[THEN conjunct2, THEN conjunct1])
  show "free_list_is (snd (coalesce p s0))
           ((if GET_ALLOC s (HDRP ?q) \<noteq> 0 then [p] else [])
            @ (if GET_ALLOC s (HDRP ?nb) = 0 then remove1 ?nb xs else xs))"
    by (rule r[THEN conjunct2, THEN conjunct2])
qed

lemma free_list_is_unmap [simp]: "free_list_is (mem_unmap a n s) xs = free_list_is s xs"
proof -
  have "dll (mem_unmap a n s) 0 (free_list s) xs = dll s 0 (free_list s) xs"
    by (rule dll_frame) (simp add: mem_unmap_def)
  thus ?thesis by (simp add: free_list_is_def mem_unmap_def)
qed

lemma ge32_neq:
  assumes "32 \<le> unat (w::64 word)"
  shows "w \<noteq> 0" and "w \<noteq> 8" and "w \<noteq> 16"
  using assms by auto

lemma release_empties_page:
  assumes ok: "release_ok s xs p"
    and pm: "GET_ALLOC s (HDRP (PREV_BLKP s p)) = 0 \<longrightarrow> PREV_BLKP s p \<in> set xs"
    and pg: "page_at s base chunk"
    and pl: "base + 16 \<notin> set xs"
    and lo: "(if GET_ALLOC s (HDRP (PREV_BLKP s p)) = 0 then PREV_BLKP s p else p) = base + 32"
    and hi: "(if GET_ALLOC s (HDRP (NEXT_BLKP s p)) = 0 then NEXT_BLKP s (NEXT_BLKP s p)
             else NEXT_BLKP s p) = base + chunk"
  shows "mm_free p s =
           mem_unmap base chunk
             (removeFromFreeList (base + 32)
                (snd (coalesce p (PUT (HDRP p) (PACK (GET_SIZE s (HDRP p)) 0) s))))"
    and "free_list_is
           (removeFromFreeList (base + 32)
              (snd (coalesce p (PUT (HDRP p) (PACK (GET_SIZE s (HDRP p)) 0) s))))
           (remove1 (base + 32)
              (if GET_ALLOC s (HDRP (NEXT_BLKP s p)) = 0 then remove1 (NEXT_BLKP s p) xs else xs))"
proof -
  let ?S = "GET_SIZE s (HDRP p)"
  let ?q = "PREV_BLKP s p" and ?nb = "NEXT_BLKP s p"
  let ?Sp = "GET_SIZE s (p - 16)" and ?Sn = "GET_SIZE s (HDRP ?nb)"
  let ?pa = "GET_ALLOC s (HDRP ?q)" and ?na = "GET_ALLOC s (HDRP ?nb)"
  let ?s0 = "PUT (HDRP p) (PACK ?S 0) s"
  let ?rest = "if ?na = 0 then remove1 ?nb xs else xs"
  define b where "b = (if ?pa = 0 then ?q else p)"
  define D where "D = ?S + (if ?na = 0 then ?Sn else 0)"
  define S' where "S' = D + (if ?pa = 0 then ?Sp else 0)"
  define s' where "s' = snd (coalesce p ?s0)"
  have hf: "GET_SIZE s (HDRP ?q) = ?Sp" and Sp0: "?Sp \<noteq> 0" and Spp: "unat ?Sp \<le> unat p"
    and S32: "32 \<le> ?S" and nw: "unat p + unat ?S + unat ?Sn < 2 ^ 64"
    and ap: "aligned16 p" and pn: "p \<notin> set xs" and F: "free_list_is s xs"
    using ok by (simp_all add: release_ok_def OVERHEAD_def sizeof_block_header_def sizeof_block_footer_def)
  have ax: "\<And>x. x \<in> set xs \<Longrightarrow> aligned16 x" using F by (simp add: free_list_is_def list_all_iff)
  have q: "?q = p - ?Sp" by (simp add: PREV_BLKP_def OVERHEAD_def sizeof_block_header_def sizeof_block_footer_def)
  have nb: "?nb = p + ?S" by (simp add: NEXT_BLKP_def)
  have aSp: "aligned16 ?Sp" and aS: "aligned16 ?S" and aSn: "aligned16 ?Sn" by (rule GET_SIZE_aligned)+
  have aD: "aligned16 D" unfolding D_def using aS aSn by (simp add: aligned16_add)
  have aS': "aligned16 S'" unfolding S'_def using aD aSp by (simp add: aligned16_add)
  have uS: "32 \<le> unat ?S" using S32 by (simp add: word_le_nat_alt)
  have uD: "unat D = unat ?S + (if ?na = 0 then unat ?Sn else 0)"
    unfolding D_def using unat_plus[of ?S ?Sn] nw by simp
  have uS': "unat S' = unat D + (if ?pa = 0 then unat ?Sp else 0)"
    unfolding S'_def using unat_plus[of D ?Sp] uD nw Spp by simp
  note Dn = ge32_neq[of D] and Sn' = ge32_neq[of S']
  have D32: "32 \<le> unat D" using uD uS by simp
  have S'32: "32 \<le> unat S'" using uS' D32 by simp
  \<comment> \<open>the block after coalescing\<close>
  note rr = release_result[OF ok]
  have cb: "fst (coalesce p ?s0) = b" using rr(1) by (simp add: b_def)
  have S'eq: "S' = ?S + ((if ?pa = 0 then GET_SIZE s (HDRP ?q) else 0) + (if ?na = 0 then ?Sn else 0))"
    by (simp add: S'_def D_def hf)
  have hdw: "GET s' (HDRP b) = PACK S' 0" using rr(2) by (simp add: s'_def cb S'eq)
  have Fl: "free_list_is s' ((if ?pa \<noteq> 0 then [p] else []) @ ?rest)" using rr(3) by (simp add: s'_def)
  have sz: "GET_SIZE s' (HDRP b) = S'" using hdw aS' by (simp add: GET_SIZE_def size_of_PACK)
  \<comment> \<open>where the block lies\<close>
  have bb: "b = base + 32" using lo by (simp add: b_def)
  have E: "p + D = base + chunk" using hi by (auto simp add: D_def NEXT_BLKP_def add.assoc split: if_splits)
  have bp: "b = (if ?pa = 0 then p - ?Sp else p)" by (simp add: b_def q)
  have bE: "b + S' = base + chunk" using E by (simp add: bp S'_def)
  have ab: "aligned16 b" using ap aSp by (simp add: bp aligned16_diff)
  have base_eq: "base = b - 32" using bb by simp
  have chunk_eq: "chunk = S' + 32" using bE by (simp add: bb algebra_simps)
  have ft: "(if ?na = 0 then FTRP s ?nb else FTRP s p) = p + D - 16"
    by (simp add: D_def FTRP_def NEXT_BLKP_def OVERHEAD_def sizeof_block_header_def sizeof_block_footer_def)
  have Sp8: "?Sp + 8 \<noteq> 0" using al_plus8[OF aSp, of 0] by simp
  \<comment> \<open>the footer of the Prolog is not written\<close>
  have Q: "mem s' (b - 16) = mem s (b - 16)"
    unfolding s'_def
  proof (rule release_frame[OF ok])
    show "b - 16 \<noteq> HDRP p"
    proof (cases "?pa = 0")
      case True
      show ?thesis
      proof
        assume "b - 16 = HDRP p"
        hence "?Sp + 8 = 0" using True by (simp add: bp HDRP_def sizeof_block_header_def algebra_simps)
        with Sp8 show False by simp
      qed
    next
      case False
      thus ?thesis by (simp add: bp HDRP_def sizeof_block_header_def)
    qed
    show "b - 16 \<noteq> p \<and> b - 16 \<noteq> p + 8" if "?pa \<noteq> 0" using that by (simp add: bp)
    show "b - 16 \<noteq> HDRP ?q" if "?pa = 0" using that by (simp add: b_def HDRP_def sizeof_block_header_def)
    have "b - 16 \<noteq> p + D - 16" using Sn'(1)[OF S'32] bE E by auto
    thus "b - 16 \<noteq> (if ?na = 0 then FTRP s ?nb else FTRP s p)" unfolding ft .
    fix x assume x: "x \<in> set xs"
    have "x + 8 \<noteq> b - 16" using al_plus8[OF ax[OF x], of "b - 16"] ab by (simp add: aligned16_diff)
    moreover have "b - 16 \<noteq> x"
    proof (cases "?pa = 0")
      case True
      have e16: "b - 16 = base + 16" unfolding bb by simp
      show ?thesis unfolding e16 using pl x by blast
    next
      case False
      thus ?thesis using release_ok_nodes(2)[OF ok x] by (simp add: bp)
    qed
    ultimately show "b - 16 \<noteq> x \<and> b - 16 \<noteq> x + 8" by auto
  qed
  \<comment> \<open>the Terminator is not written\<close>
  have aE: "aligned16 (p + D - 16)" using ap aD by (simp add: aligned16_add aligned16_diff)
  have T: "mem s' (p + D - 8) = mem s (p + D - 8)"
    unfolding s'_def
  proof (rule release_frame[OF ok])
    show "p + D - 8 \<noteq> HDRP p" using Dn(1)[OF D32] by (simp add: HDRP_def sizeof_block_header_def)
    show "p + D - 8 \<noteq> p \<and> p + D - 8 \<noteq> p + 8" if "?pa \<noteq> 0"
      using Dn(2,3)[OF D32] by (simp add: algebra_simps)
    show "p + D - 8 \<noteq> HDRP ?q" if "?pa = 0"
    proof -
      have "HDRP ?q = b - 8" using that by (simp add: b_def HDRP_def sizeof_block_header_def)
      moreover have "p + D = b + S'" using bE E by simp
      ultimately show ?thesis using Sn'(1)[OF S'32] by simp
    qed
    show "p + D - 8 \<noteq> (if ?na = 0 then FTRP s ?nb else FTRP s p)" unfolding ft by simp
    fix x assume x: "x \<in> set xs"
    have "p + D - 16 + 8 \<noteq> x" using al_plus8[OF aE ax[OF x]] .
    moreover have "p + D - 16 \<noteq> x"
      using release_ok_nodes(4)[OF ok x] release_ok_nodes(6)[OF ok x] ft by (auto split: if_splits)
    ultimately show "p + D - 8 \<noteq> x \<and> p + D - 8 \<noteq> x + 8" by (simp add: algebra_simps)
  qed
  \<comment> \<open>the two tests of the code\<close>
  have pgw: "mem s (base + 16) = PACK 16 1" "mem s (base + chunk - 8) = PACK 0 1"
    and pgm: "(base, chunk) \<in> set (mapped s)"
    using pg by (simp_all add: page_at_def GET_def)
  have nx: "NEXT_BLKP s' b = base + chunk" using bE by (simp add: NEXT_BLKP_def sz)
  have t1: "GET_SIZE s' (HDRP (NEXT_BLKP s' b)) = 0"
    using T pgw(2) E by (simp add: nx GET_SIZE_def GET_def HDRP_def sizeof_block_header_def size_of_PACK)
  have e16: "b - 16 = base + 16" unfolding bb by simp
  have Q': "mem s' (b - 16) = PACK 16 1" using Q pgw(1) by (simp only: e16)
  have hh: "HDRP (HDRP b) = b - 16" by (simp add: HDRP_def sizeof_block_header_def)
  have t2: "GET_SIZE s' (HDRP (HDRP b)) = ALIGN OVERHEAD"
    unfolding hh by (simp add: GET_SIZE_def GET_def Q') (simp add: macro_defs)
  have fr: "mm_free p s = mem_unmap base chunk (removeFromFreeList b s')"
    using mm_free_unfold[of p s] t1 t2
    by (simp add: Let_def cb s'_def[symmetric] sz)
       (simp add: base_eq chunk_eq HDRP_def PAGE_OVERHEAD_def sizeof_block_header_def sizeof_block_footer_def
          add.commute)
  \<comment> \<open>the free list\<close>
  have qnb: "?pa = 0 \<Longrightarrow> ?q \<noteq> ?nb"
  proof
    assume "?pa = 0" "?q = ?nb"
    hence "?Sp + ?S = 0" by (simp add: q nb algebra_simps)
    moreover have "unat (?Sp + ?S) = unat ?Sp + unat ?S" by (rule unat_plus) (use Spp nw in simp)
    ultimately show False using uS by (simp add: unat_eq_zero[symmetric])
  qed
  have bm: "b \<in> set ((if ?pa \<noteq> 0 then [p] else []) @ ?rest)"
    using pm qnb by (auto simp add: b_def)
  have rm: "remove1 b ((if ?pa \<noteq> 0 then [p] else []) @ ?rest) = remove1 (base + 32) ?rest"
  proof (cases "?pa = 0")
    case True
    thus ?thesis by (simp add: bb)
  next
    case False
    have "p \<notin> set ?rest" using pn notin_set_remove1[of p xs ?nb] by (simp split: if_splits)
    hence "remove1 p ?rest = ?rest" by (rule remove1_idem)
    thus ?thesis using False bb by (simp add: b_def)
  qed
  have Fr: "free_list_is (removeFromFreeList b s') (remove1 (base + 32) ?rest)"
    using free_list_is_remove[OF Fl bm] by (simp only: rm)
  show "mm_free p s = mem_unmap base chunk (removeFromFreeList (base + 32) (snd (coalesce p ?s0)))"
    using fr by (simp only: bb s'_def)
  show "free_list_is (removeFromFreeList (base + 32) (snd (coalesce p ?s0))) (remove1 (base + 32) ?rest)"
    using Fr by (simp only: bb s'_def)
qed

lemma heap_e_run: "mm_malloc 4096 131072 30000 heap_i = Some (131104, heap_e)"
  by (simp add: heap_e_def heap_i_obs macro_defs op_defs Let_def first_fit.simps
        cong: let_weak_cong prod.case_cong_weak option.case_cong_weak)

lemma heap_e_obs:
  "mem heap_e = (\<lambda>_. 0)(86008 := 1, 65544 := 17, 65552 := 17, 65568 := 0, 65560 := 20448,
        86000 := 20448, 241656 := 1, 131080 := 17, 131088 := 17,
        131104 := 65568, 131112 := 0, 131096 := 30017, 161104 := 30017,
        65576 := 161120, 161120 := 65568, 161128 := 0, 161112 := 80544,
        241648 := 80544)"
  "free_list heap_e = 161120" "mapped heap_e = [(131072, 110592), (65536, 20480)]" "unmapped heap_e = []"
  by (simp_all add: heap_e_def heap_i_obs macro_defs op_defs Let_def first_fit.simps
        cong: let_weak_cong prod.case_cong_weak option.case_cong_weak)

text \<open>
  Claim C7. When, after coalescing, the block that follows the resulting free block is
  the Terminator and the block before it is the Prolog, \<open>mm_free\<close> removes the block from
  the free list and hands the whole page back to the provider, with the address and the
  size of the original \<open>mem_map\<close> call.

  Here \<open>(base, chunk)\<close> is a page of the provider log with its Prolog and its Terminator
  in place (\<open>page_at\<close>; \<open>extend_page\<close> and \<open>mm_init_page\<close> show that \<open>extend\<close> and \<open>mm_init\<close>
  lay out every page they map in this way, for the pair they log). \<open>mm_free p\<close> is
  called in a state with \<open>release_ok\<close>, in which the Prolog is not a member of the free
  list and a predecessor marked free is. The block that results from coalescing starts
  at \<open>p\<close>, or at the previous block when that one is free, and ends with the block of \<open>p\<close>,
  or with the next block when that one is free. When it starts right after the Prolog,
  at \<open>base + 32\<close>, and ends at the Terminator, at \<open>base + chunk\<close>, both tests of the code
  succeed, \<open>mem_unmap\<close> is called once, with \<open>(base, chunk)\<close>, nothing is mapped, and the
  free list is the old one without the block and without the successor it absorbed.
\<close>

theorem mm_free_reclaims_page:
  assumes ok: "release_ok s xs p"
    and pm: "GET_ALLOC s (HDRP (PREV_BLKP s p)) = 0 \<longrightarrow> PREV_BLKP s p \<in> set xs"
    and pg: "page_at s base chunk"
    and pl: "base + 16 \<notin> set xs"
    and lo: "(if GET_ALLOC s (HDRP (PREV_BLKP s p)) = 0 then PREV_BLKP s p else p) = base + 32"
    and hi: "(if GET_ALLOC s (HDRP (NEXT_BLKP s p)) = 0 then NEXT_BLKP s (NEXT_BLKP s p)
             else NEXT_BLKP s p) = base + chunk"
  shows "unmapped (mm_free p s) = (base, chunk) # unmapped s
         \<and> (base, chunk) \<in> set (mapped s) \<and> mapped (mm_free p s) = mapped s
         \<and> free_list_is (mm_free p s)
              (remove1 (base + 32)
                 (if GET_ALLOC s (HDRP (NEXT_BLKP s p)) = 0 then remove1 (NEXT_BLKP s p) xs else xs))"
proof -
  note r = release_empties_page[OF ok pm pg pl lo hi]
  have m: "(base, chunk) \<in> set (mapped s)" using pg by (simp add: page_at_def)
  have u: "unmapped (mm_free p s) = (base, chunk) # unmapped s"
    unfolding r(1) by (simp add: mem_unmap_def)
  have k: "mapped (mm_free p s) = mapped s"
    unfolding r(1) by (simp add: mem_unmap_def)
  have f: "free_list_is (mm_free p s)
             (remove1 (base + 32)
                (if GET_ALLOC s (HDRP (NEXT_BLKP s p)) = 0 then remove1 (NEXT_BLKP s p) xs else xs))"
    unfolding r(1) using r(2) by simp
  show ?thesis using u m k f by simp
qed

theorem mm_free_reclaims_page_witness:
  "mm_malloc 4096 131072 30000 heap_i = Some (131104, heap_e)
   \<and> mapped heap_i = [(65536, 20480)]
   \<and> mapped heap_e = [(131072, 110592), (65536, 20480)]
   \<and> release_ok heap_e [161120, 65568] 131104
   \<and> page_at heap_e 131072 110592
   \<and> GET_ALLOC heap_e (HDRP (PREV_BLKP heap_e 131104)) = 1
   \<and> GET_ALLOC heap_e (HDRP (NEXT_BLKP heap_e 131104)) = 0
   \<and> NEXT_BLKP heap_e 131104 = 161120
   \<and> NEXT_BLKP heap_e (NEXT_BLKP heap_e 131104) = 131072 + 110592
   \<and> unmapped (mm_free 131104 heap_e) = [(131072, 110592)]
   \<and> mapped (mm_free 131104 heap_e) = [(131072, 110592), (65536, 20480)]
   \<and> free_list_is (mm_free 131104 heap_e) [65568]"
proof -
  have ok: "release_ok heap_e [161120, 65568] 131104"
    by (simp add: release_ok_def tags_of_def tag_defs PREV_BLKP_def GET_ALLOC_mem heap_e_obs
          free_list_is_def get_prev_def get_next_def aligned16_def)
  have pg: "page_at heap_e 131072 110592"
    by (simp add: page_at_def GET_def PACK_def heap_e_obs)
  have pa: "GET_ALLOC heap_e (HDRP (PREV_BLKP heap_e 131104)) = 1"
    and na: "GET_ALLOC heap_e (HDRP (NEXT_BLKP heap_e 131104)) = 0"
    and nb: "NEXT_BLKP heap_e 131104 = 161120"
    and nn: "NEXT_BLKP heap_e (NEXT_BLKP heap_e 131104) = 131072 + 110592"
    by (simp_all add: tag_defs PREV_BLKP_def GET_ALLOC_mem heap_e_obs)
  have pm: "GET_ALLOC heap_e (HDRP (PREV_BLKP heap_e 131104)) = 0 \<longrightarrow> PREV_BLKP heap_e 131104 \<in> set [161120, 65568]"
    by (simp add: pa)
  have pl: "131072 + 16 \<notin> set [161120, 65568 :: addr]" by simp
  have lo: "(if GET_ALLOC heap_e (HDRP (PREV_BLKP heap_e 131104)) = 0 then PREV_BLKP heap_e 131104 else 131104)
              = 131072 + 32" by (simp add: pa)
  have hi: "(if GET_ALLOC heap_e (HDRP (NEXT_BLKP heap_e 131104)) = 0
             then NEXT_BLKP heap_e (NEXT_BLKP heap_e 131104) else NEXT_BLKP heap_e 131104) = 131072 + 110592"
    by (simp add: na nn)
  show ?thesis
    using mm_free_reclaims_page[OF ok pm pg pl lo hi] heap_e_run ok pg pa na nb nn
    by (simp add: heap_e_obs heap_i_obs)
qed

end
